theory Spec2Isabelle
  imports Main "HOL-Library.Char_ord" "HOL-Library.List_Lexorder"
begin

section \<open>The two-point security lattice and constraint elements\<close>

text \<open>
  \<^verbatim>\<open>LHConstant\<close> carries a level \<^verbatim>\<open>enum LHLevel { LOW, HIGH }\<close>; the two constants are
  process-wide singletons, so a reference to one is its level.  A variable
  (\<^verbatim>\<open>LHConsVar\<close>) is identity-equal only to itself: it is modelled by the address of
  the object.  A join (\<^verbatim>\<open>LHJoin\<close>) holds a \<^verbatim>\<open>std::set<const ConsElem *>\<close>; the member
  set is a list without repetitions, read in the set's iteration order.
\<close>

datatype LHLevel = LOW | HIGH

datatype ConsElem =
    LHConstant LHLevel
  | LHConsVar nat
  | LHJoin "ConsElem list"

text \<open>\<^verbatim>\<open>LHConstant::leq\<close>: false when the other element is not a constant.\<close>

fun LHConstant_leq :: "LHLevel \<Rightarrow> ConsElem \<Rightarrow> bool" where
  "LHConstant_leq level (LHConstant other) = (level = LOW \<or> other = HIGH)"
| "LHConstant_leq level (LHConsVar v) = False"
| "LHConstant_leq level (LHJoin es) = False"

text \<open>\<^verbatim>\<open>LHConstant::join\<close>: \<^verbatim>\<open>(level == LOW) ? other : *this\<close>.\<close>

definition LHConstant_join :: "LHLevel \<Rightarrow> LHLevel \<Rightarrow> LHLevel" where
  "LHConstant_join level other = (if level = LOW then other else level)"

text \<open>
  The virtual \<^verbatim>\<open>ConsElem::leq\<close>, dispatched on the receiver:
  \<^verbatim>\<open>LHConstant::leq\<close>, \<^verbatim>\<open>LHConsVar::leq\<close> (\<^verbatim>\<open>return false\<close>) and \<^verbatim>\<open>LHJoin::leq\<close>
  (every member is \<^verbatim>\<open>leq\<close> the other element).
\<close>

fun leq :: "ConsElem \<Rightarrow> ConsElem \<Rightarrow> bool" where
  "leq (LHConstant level) elem = LHConstant_leq level elem"
| "leq (LHConsVar v) elem = False"
| "leq (LHJoin elems) elem = list_all (\<lambda>e. leq e elem) elems"

text \<open>
  The virtual \<^verbatim>\<open>ConsElem::variables\<close>, which inserts into a
  \<^verbatim>\<open>std::set<const ConsVar *>\<close>: nothing for a constant, the variable itself, and the
  variables of every member of a join.
\<close>

fun variables :: "ConsElem \<Rightarrow> nat set" where
  "variables (LHConstant level) = {}"
| "variables (LHConsVar v) = {v}"
| "variables (LHJoin elems) = (\<Union>e \<in> set elems. variables e)"

fun isa_LHJoin :: "ConsElem \<Rightarrow> bool" where
  "isa_LHJoin (LHJoin elems) = True"
| "isa_LHJoin e = False"

text \<open>
  A \<^verbatim>\<open>std::set<const ConsElem *>\<close> is read in the order of the addresses of its members.
  The address of a variable is its number.  The two constants are put before the
  variables and a join after its members; members that this order does not separate
  keep the order in which they were inserted.
\<close>

fun address :: "ConsElem \<Rightarrow> nat" where
  "address (LHConstant level) = (case level of LOW \<Rightarrow> 0 | HIGH \<Rightarrow> 1)"
| "address (LHConsVar v) = v + 2"
| "address (LHJoin elems) = Suc (fold (\<lambda>e m. max (address e) m) elems 1)"

definition elemset :: "ConsElem list \<Rightarrow> ConsElem list" where
  "elemset elems = sort_key address (remdups elems)"

text \<open>\<^verbatim>\<open>LHConstraint\<close>: an immutable pair of element references, \<^verbatim>\<open>lhs <= rhs\<close>.\<close>

datatype LHConstraint = LHConstraint (lhs: ConsElem) (rhs: ConsElem)

text \<open>
  A \<^verbatim>\<open>DenseMap\<close> from variables to vectors (\<^verbatim>\<open>invalidIfIncreased\<close>,
  \<^verbatim>\<open>invalidIfDecreased\<close>, the propagation map \<^verbatim>\<open>P\<close>) is an association list with at
  most one entry per key.  \<^verbatim>\<open>find\<close> is \<^const>\<open>map_of\<close>; \<^verbatim>\<open>operator[]\<close> yields the
  empty vector for a missing key.
\<close>

type_synonym vecmap = "(nat \<times> nat list) list"

definition vm_get :: "vecmap \<Rightarrow> nat \<Rightarrow> nat list" where
  "vm_get m k = (case map_of m k of None \<Rightarrow> [] | Some xs \<Rightarrow> xs)"

definition vm_append :: "nat \<Rightarrow> nat list \<Rightarrow> vecmap \<Rightarrow> vecmap" where
  "vm_append k ys m =
     (if k \<in> fst ` set m
      then map (\<lambda>(k', xs). if k' = k then (k', xs @ ys) else (k', xs)) m
      else m @ [(k, ys)])"

section \<open>The classical worklist solver (LHConsSoln)\<close>

text \<open>
  The solver receives a \<^verbatim>\<open>std::vector<const LHConstraint *>\<close>.  A constraint pointer is
  an address; \<open>deref\<close> reads the constraint object stored there.  The queue, the
  \<^verbatim>\<open>queueSet\<close> and the index maps all hold such pointers, so two constraint objects
  with equal contents stay distinct, as in the source.
\<close>

type_synonym cheap = "nat \<Rightarrow> LHConstraint"

datatype SolnClass = LeastSoln | GreatestSoln

record LHConsSoln =
  dynClass :: SolnClass
  soln_constraints :: "nat list"
  queue :: "nat list"
  queueSet :: "nat set"
  changed :: "nat set"
  solved :: bool
  invalidIfIncreased :: vecmap
  invalidIfDecreased :: vecmap

text \<open>
  \<^verbatim>\<open>defaultValue\<close> is fixed by the subclass constructor: \<^verbatim>\<open>LHConstant::low()\<close> for
  \<^verbatim>\<open>LHConsLeastSoln\<close>, \<^verbatim>\<open>LHConstant::high()\<close> for \<^verbatim>\<open>LHConsGreatestSoln\<close>.
\<close>

definition defaultValue :: "LHConsSoln \<Rightarrow> LHLevel" where
  "defaultValue s = (case dynClass s of LeastSoln \<Rightarrow> LOW | GreatestSoln \<Rightarrow> HIGH)"

text \<open>
  The body of \<^verbatim>\<open>LHConsSoln::subst\<close> after its call of \<^verbatim>\<open>solve()\<close>: it reads only
  \<^verbatim>\<open>defaultValue\<close> and \<^verbatim>\<open>changed\<close>.  A join starts from \<^verbatim>\<open>defaultValue\<close>.
\<close>

fun LHConsSoln_subst_in :: "LHLevel \<Rightarrow> nat set \<Rightarrow> ConsElem \<Rightarrow> LHLevel" where
  "LHConsSoln_subst_in dv ch (LHConsVar var) =
     (let other = (if dv = LOW then HIGH else LOW)
      in if var \<in> ch then other else dv)"
| "LHConsSoln_subst_in dv ch (LHConstant level) = level"
| "LHConsSoln_subst_in dv ch (LHJoin elements) =
     fold (\<lambda>elem substVal. LHConstant_join substVal (LHConsSoln_subst_in dv ch elem))
       elements dv"

definition subst_now :: "LHConsSoln \<Rightarrow> ConsElem \<Rightarrow> LHLevel" where
  "subst_now s elem = LHConsSoln_subst_in (defaultValue s) (changed s) elem"

definition enqueueConstraints :: "nat list \<Rightarrow> LHConsSoln \<Rightarrow> LHConsSoln" where
  "enqueueConstraints cs s =
     fold (\<lambda>elem s. if elem \<in> queueSet s then s
                     else s\<lparr>queueSet := insert elem (queueSet s), queue := queue s @ [elem]\<rparr>)
       cs s"

text \<open>
  The two constructors index every constraint under the variables of its left side
  (least) or of its right side (greatest).  A \<^verbatim>\<open>std::set<const ConsVar *>\<close> is read in
  ascending address order.
\<close>

definition addInvalid :: "nat \<Rightarrow> nat set \<Rightarrow> vecmap \<Rightarrow> vecmap" where
  "addInvalid cons vars m = fold (\<lambda>var m. vm_append var [cons] m) (sorted_list_of_set vars) m"

definition LHConsLeastSoln :: "cheap \<Rightarrow> nat list \<Rightarrow> LHConsSoln" where
  "LHConsLeastSoln deref cs =
     \<lparr>dynClass = LeastSoln, soln_constraints = cs, queue = [], queueSet = {},
      changed = {}, solved = False,
      invalidIfIncreased = fold (\<lambda>cons m. addInvalid cons (variables (lhs (deref cons))) m) cs [],
      invalidIfDecreased = []\<rparr>"

definition LHConsGreatestSoln :: "cheap \<Rightarrow> nat list \<Rightarrow> LHConsSoln" where
  "LHConsGreatestSoln deref cs =
     \<lparr>dynClass = GreatestSoln, soln_constraints = cs, queue = [], queueSet = {},
      changed = {}, solved = False,
      invalidIfIncreased = [],
      invalidIfDecreased = fold (\<lambda>cons m. addInvalid cons (variables (rhs (deref cons))) m) cs []\<rparr>"

text \<open>
  \<^verbatim>\<open>LHConsLeastSoln::satisfyConstraint\<close>: \<^verbatim>\<open>L = subst(left)\<close> is read once; every
  variable of the right side whose value is not above \<^verbatim>\<open>L\<close> enters \<^verbatim>\<open>changed\<close> and the
  constraints indexed under it are enqueued.
\<close>

definition satisfyLeast :: "LHConsSoln \<Rightarrow> ConsElem \<Rightarrow> ConsElem \<Rightarrow> LHConsSoln" where
  "satisfyLeast s left right =
     (let L = subst_now s left in
      fold (\<lambda>var s.
              let R = subst_now s (LHConsVar var) in
              if \<not> LHConstant_leq L (LHConstant R)
              then enqueueConstraints (vm_get (invalidIfIncreased s) var)
                     (s\<lparr>changed := insert var (changed s)\<rparr>)
              else s)
        (sorted_list_of_set (variables right)) s)"

text \<open>
  \<^verbatim>\<open>LHConsGreatestSoln::satisfyConstraint\<close>.  Its third branch,
  \<^verbatim>\<open>assert(false && "Meets not supported yet...")\<close>, needs two constants neither of
  which is below the other; there are none, so the branch leaves the state as it is.
\<close>

definition satisfyGreatest :: "LHConsSoln \<Rightarrow> ConsElem \<Rightarrow> ConsElem \<Rightarrow> LHConsSoln" where
  "satisfyGreatest s left right =
     (let R = subst_now s right in
      fold (\<lambda>var s.
              let L = subst_now s (LHConsVar var) in
              if LHConstant_leq L (LHConstant R) then s
              else if LHConstant_leq R (LHConstant L)
              then enqueueConstraints (vm_get (invalidIfDecreased s) var)
                     (s\<lparr>changed := insert var (changed s)\<rparr>)
              else s)
        (sorted_list_of_set (variables left)) s)"

definition satisfyConstraint :: "LHConsSoln \<Rightarrow> ConsElem \<Rightarrow> ConsElem \<Rightarrow> LHConsSoln" where
  "satisfyConstraint s left right =
     (case dynClass s of
        LeastSoln \<Rightarrow> satisfyLeast s left right
      | GreatestSoln \<Rightarrow> satisfyGreatest s left right)"

text \<open>One iteration of the \<^verbatim>\<open>while (!queue.empty())\<close> loop of \<^verbatim>\<open>solve\<close>.\<close>

definition dequeueConstraint :: "LHConsSoln \<Rightarrow> LHConsSoln" where
  "dequeueConstraint s = s\<lparr>queue := tl (queue s), queueSet := queueSet s - {hd (queue s)}\<rparr>"

definition solve_step :: "cheap \<Rightarrow> LHConsSoln \<Rightarrow> LHConsSoln" where
  "solve_step deref s =
     (let c = deref (hd (queue s));
          s1 = dequeueConstraint s;
          left = lhs c; right = rhs c
      in if LHConstant_leq (subst_now s1 left) (LHConstant (subst_now s1 right)) then s1
         else satisfyConstraint s1 left right)"

subsection \<open>Termination of the worklist loop\<close>

lemma fold_inv: "P s \<Longrightarrow> (\<And>x s. x \<in> set xs \<Longrightarrow> P s \<Longrightarrow> P (f x s)) \<Longrightarrow> P (fold f xs s)"
  by (induction xs arbitrary: s) auto

definition cons_vars :: "cheap \<Rightarrow> nat \<Rightarrow> nat set" where
  "cons_vars deref c = variables (lhs (deref c)) \<union> variables (rhs (deref c))"

definition vm_range :: "vecmap \<Rightarrow> nat set" where
  "vm_range m = (\<Union>xs \<in> snd ` set m. set xs)"

definition solve_universe :: "cheap \<Rightarrow> LHConsSoln \<Rightarrow> nat set" where
  "solve_universe deref s =
     (\<Union>c \<in> set (queue s) \<union> vm_range (invalidIfIncreased s) \<union> vm_range (invalidIfDecreased s).
        cons_vars deref c)"

lemma finite_variables: "finite (variables e)"
  by (induction e) auto

lemma finite_solve_universe: "finite (solve_universe deref s)"
  by (auto simp: solve_universe_def vm_range_def cons_vars_def finite_variables)

lemma vm_get_range: "set (vm_get m k) \<subseteq> vm_range m"
proof
  fix x assume "x \<in> set (vm_get m k)"
  then obtain xs where "map_of m k = Some xs" "x \<in> set xs"
    by (cases "map_of m k") (auto simp: vm_get_def)
  then have "(k, xs) \<in> set m" "x \<in> set xs" by (auto dest: map_of_SomeD)
  then show "x \<in> vm_range m" unfolding vm_range_def by force
qed

text \<open>
  What \<^verbatim>\<open>satisfyConstraint\<close> and \<^verbatim>\<open>enqueueConstraints\<close> keep: the index maps, the
  class; \<^verbatim>\<open>changed\<close> only grows, by variables of the constraint at hand; the queue
  receives only indexed constraints, and none unless \<^verbatim>\<open>changed\<close> grew.
\<close>
definition step_rel :: "nat set \<Rightarrow> LHConsSoln \<Rightarrow> LHConsSoln \<Rightarrow> bool" where
  "step_rel V s s' \<longleftrightarrow>
     invalidIfIncreased s' = invalidIfIncreased s \<and> invalidIfDecreased s' = invalidIfDecreased s \<and>
     dynClass s' = dynClass s \<and>
     soln_constraints s' = soln_constraints s \<and> solved s' = solved s \<and>
     changed s \<subseteq> changed s' \<and> changed s' \<subseteq> changed s \<union> V \<and>
     set (queue s') \<subseteq> set (queue s) \<union> vm_range (invalidIfIncreased s) \<union> vm_range (invalidIfDecreased s) \<and>
     (changed s' = changed s \<longrightarrow> queue s' = queue s)"

lemma step_rel_refl: "step_rel V s s" by (auto simp add: step_rel_def)

lemma step_rel_trans: "step_rel V s s1 \<Longrightarrow> step_rel V s1 s2 \<Longrightarrow> step_rel V s s2"
  unfolding step_rel_def by (auto; blast)

lemma enqueue_fields [simp]:
  "invalidIfIncreased (enqueueConstraints cs s) = invalidIfIncreased s"
  "invalidIfDecreased (enqueueConstraints cs s) = invalidIfDecreased s"
  "dynClass (enqueueConstraints cs s) = dynClass s"
  "soln_constraints (enqueueConstraints cs s) = soln_constraints s"
  "solved (enqueueConstraints cs s) = solved s"
  "changed (enqueueConstraints cs s) = changed s"
  unfolding enqueueConstraints_def
  by (induction cs arbitrary: s; simp)+

lemma enqueue_queue: "set (queue (enqueueConstraints cs s)) \<subseteq> set (queue s) \<union> set cs"
  unfolding enqueueConstraints_def
proof (induction cs arbitrary: s)
  case Nil show ?case by simp
next
  case (Cons a cs)
  show ?case using Cons[of s] Cons[of "s\<lparr>queueSet := insert a (queueSet s), queue := queue s @ [a]\<rparr>"]
    by (simp; blast)
qed

lemma enqueue_keeps:
  "invalidIfIncreased (enqueueConstraints cs s) = invalidIfIncreased s \<and>
   invalidIfDecreased (enqueueConstraints cs s) = invalidIfDecreased s \<and>
   dynClass (enqueueConstraints cs s) = dynClass s \<and>
   soln_constraints (enqueueConstraints cs s) = soln_constraints s \<and>
   solved (enqueueConstraints cs s) = solved s \<and>
   changed (enqueueConstraints cs s) = changed s \<and>
   set (queue (enqueueConstraints cs s)) \<subseteq> set (queue s) \<union> set cs"
  using enqueue_queue by simp

lemma satisfyLeast_rel:
  assumes lc: "dynClass s = LeastSoln"
  shows "step_rel (variables right) s (satisfyLeast s left right)"
  unfolding satisfyLeast_def Let_def
proof (rule fold_inv[where P="step_rel (variables right) s"])
  show "step_rel (variables right) s s" by (rule step_rel_refl)
next
  fix x s'
  assume x: "x \<in> set (sorted_list_of_set (variables right))" and r: "step_rel (variables right) s s'"
  have xv: "x \<in> variables right" using x by (simp add: finite_variables)
  show "step_rel (variables right) s
          (if \<not> LHConstant_leq (subst_now s left) (LHConstant (subst_now s' (LHConsVar x)))
           then enqueueConstraints (vm_get (invalidIfIncreased s') x) (s'\<lparr>changed := insert x (changed s')\<rparr>)
           else s')"
  proof (cases "\<not> LHConstant_leq (subst_now s left) (LHConstant (subst_now s' (LHConsVar x)))")
    case False then show ?thesis using r by simp
  next
    case True
    let ?s2 = "enqueueConstraints (vm_get (invalidIfIncreased s') x) (s'\<lparr>changed := insert x (changed s')\<rparr>)"
    have k: "invalidIfIncreased ?s2 = invalidIfIncreased s' \<and> invalidIfDecreased ?s2 = invalidIfDecreased s' \<and>
       dynClass ?s2 = dynClass s' \<and> soln_constraints ?s2 = soln_constraints s' \<and>
       solved ?s2 = solved s' \<and> changed ?s2 = insert x (changed s') \<and>
       set (queue ?s2) \<subseteq> set (queue s') \<union> set (vm_get (invalidIfIncreased s') x)"
      using enqueue_keeps[of "vm_get (invalidIfIncreased s') x" "s'\<lparr>changed := insert x (changed s')\<rparr>"] by simp
    have "dynClass s' = LeastSoln" using r lc by (simp add: step_rel_def)
    then have xn: "x \<notin> changed s'" using True
      by (cases "subst_now s left"; auto simp: subst_now_def defaultValue_def split: if_splits)
    show ?thesis using True r k xv xn vm_get_range[of "invalidIfIncreased s'" x]
      unfolding step_rel_def by (auto; blast)
  qed
qed


lemma satisfyGreatest_rel:
  assumes gc: "dynClass s = GreatestSoln"
  shows "step_rel (variables left) s (satisfyGreatest s left right)"
  unfolding satisfyGreatest_def Let_def
proof (rule fold_inv[where P="step_rel (variables left) s"])
  show "step_rel (variables left) s s" by (rule step_rel_refl)
next
  fix x s'
  assume x: "x \<in> set (sorted_list_of_set (variables left))" and r: "step_rel (variables left) s s'"
  have xv: "x \<in> variables left" using x by (simp add: finite_variables)
  let ?L = "subst_now s' (LHConsVar x)" and ?R = "subst_now s right"
  let ?s2 = "enqueueConstraints (vm_get (invalidIfDecreased s') x) (s'\<lparr>changed := insert x (changed s')\<rparr>)"
  show "step_rel (variables left) s
          (if LHConstant_leq ?L (LHConstant ?R) then s'
           else if LHConstant_leq ?R (LHConstant ?L) then ?s2 else s')"
  proof (cases "\<not> LHConstant_leq ?L (LHConstant ?R) \<and> LHConstant_leq ?R (LHConstant ?L)")
    case False then show ?thesis using r by auto
  next
    case True
    have k: "invalidIfIncreased ?s2 = invalidIfIncreased s' \<and> invalidIfDecreased ?s2 = invalidIfDecreased s' \<and>
       dynClass ?s2 = dynClass s' \<and> soln_constraints ?s2 = soln_constraints s' \<and>
       solved ?s2 = solved s' \<and> changed ?s2 = insert x (changed s') \<and>
       set (queue ?s2) \<subseteq> set (queue s') \<union> set (vm_get (invalidIfDecreased s') x)"
      using enqueue_keeps[of "vm_get (invalidIfDecreased s') x" "s'\<lparr>changed := insert x (changed s')\<rparr>"] by simp
    have "dynClass s' = GreatestSoln" using r gc by (simp add: step_rel_def)
    then have xn: "x \<notin> changed s'" using True
      by (cases "subst_now s right"; auto simp: subst_now_def defaultValue_def split: if_splits)
    show ?thesis using True r k xv xn vm_get_range[of "invalidIfDecreased s'" x]
      unfolding step_rel_def by (auto; blast)
  qed
qed

lemma satisfyConstraint_rel:
  "step_rel (variables left \<union> variables right) s (satisfyConstraint s left right)"
proof (cases "dynClass s")
  case LeastSoln
  from satisfyLeast_rel[OF this, of right left] show ?thesis
    unfolding satisfyConstraint_def step_rel_def using LeastSoln by (auto; blast)
next
  case GreatestSoln
  from satisfyGreatest_rel[OF this, of left right] show ?thesis
    unfolding satisfyConstraint_def step_rel_def using GreatestSoln by (auto; blast)
qed

lemma solve_step_rel:
  assumes ne: "queue s \<noteq> []"
  shows "step_rel (cons_vars deref (hd (queue s))) (dequeueConstraint s) (solve_step deref s)"
  unfolding solve_step_def Let_def cons_vars_def
  using satisfyConstraint_rel[of "lhs (deref (hd (queue s)))" "rhs (deref (hd (queue s)))" "dequeueConstraint s"]
  by (auto simp: step_rel_refl)

definition solve_measure :: "cheap \<Rightarrow> LHConsSoln \<Rightarrow> nat \<times> nat" where
  "solve_measure deref s = (card (solve_universe deref s - changed s), length (queue s))"

lemma solve_step_decreases:
  assumes ne: "queue s \<noteq> []"
  shows "(solve_measure deref (solve_step deref s), solve_measure deref s) \<in> less_than <*lex*> less_than"
proof -
  let ?d = "dequeueConstraint s" and ?s' = "solve_step deref s"
  let ?V = "cons_vars deref (hd (queue s))"
  have r: "step_rel ?V ?d ?s'" by (rule solve_step_rel[OF ne])
  have d: "queue ?d = tl (queue s)" "changed ?d = changed s"
    "invalidIfIncreased ?d = invalidIfIncreased s" "invalidIfDecreased ?d = invalidIfDecreased s"
    by (simp_all add: dequeueConstraint_def)
  have hdq: "hd (queue s) \<in> set (queue s)" using ne by simp
  have tlq: "set (tl (queue s)) \<subseteq> set (queue s)" using ne by (cases "queue s") auto
  have Vsub: "?V \<subseteq> solve_universe deref s" using hdq unfolding solve_universe_def by blast
  have Usub: "solve_universe deref ?s' \<subseteq> solve_universe deref s"
    using r d tlq unfolding step_rel_def solve_universe_def by (auto; blast)
  have chsub: "changed s \<subseteq> changed ?s'" "changed ?s' \<subseteq> changed s \<union> ?V"
    using r d unfolding step_rel_def by auto
  show ?thesis
  proof (cases "changed ?s' = changed s")
    case True
    then have "queue ?s' = tl (queue s)" using r d unfolding step_rel_def by auto
    then have "length (queue ?s') < length (queue s)" using ne by (cases "queue s") auto
    moreover have "card (solve_universe deref ?s' - changed ?s') \<le> card (solve_universe deref s - changed s)"
      using True Usub by (intro card_mono) (auto simp: finite_solve_universe)
    ultimately show ?thesis unfolding solve_measure_def by auto
  next
    case False
    then obtain x where x: "x \<in> changed ?s'" "x \<notin> changed s" using chsub by blast
    then have xU: "x \<in> solve_universe deref s" using chsub Vsub by blast
    have "solve_universe deref ?s' - changed ?s' \<subset> solve_universe deref s - changed s"
      using x xU Usub chsub by blast
    then have "card (solve_universe deref ?s' - changed ?s') < card (solve_universe deref s - changed s)"
      by (intro psubset_card_mono) (auto simp: finite_solve_universe)
    then show ?thesis unfolding solve_measure_def by auto
  qed
qed

text \<open>
  The \<^verbatim>\<open>while (!queue.empty())\<close> loop.  It terminates: each iteration either enlarges
  \<^verbatim>\<open>changed\<close> inside the finite set of variables of the known constraints, or
  shortens the queue.
\<close>

function solve_loop :: "cheap \<Rightarrow> LHConsSoln \<Rightarrow> LHConsSoln" where
  "solve_loop deref s = (if queue s = [] then s else solve_loop deref (solve_step deref s))"
  by pat_completeness auto
termination
  by (relation "inv_image (less_than <*lex*> less_than) (\<lambda>(deref, s). solve_measure deref s)")
     (auto intro: solve_step_decreases simp del: in_lex_prod)

declare solve_loop.simps [simp del]

text \<open>
  \<^verbatim>\<open>LHConsSoln::solve\<close>: nothing when already solved; otherwise all constraints are
  enqueued, the loop runs, the constraint vector is deleted and \<^verbatim>\<open>releaseMemory\<close>
  clears the index map.
\<close>

definition solve :: "cheap \<Rightarrow> LHConsSoln \<Rightarrow> LHConsSoln" where
  "solve deref s =
     (if solved s then s
      else let s1 = enqueueConstraints (soln_constraints s) (s\<lparr>solved := True\<rparr>);
               s2 = solve_loop deref s1
           in s2\<lparr>soln_constraints := [], invalidIfIncreased := [], invalidIfDecreased := []\<rparr>)"

text \<open>\<^verbatim>\<open>LHConsSoln::subst\<close>: solve first, then read the value.\<close>

definition LHConsSoln_subst :: "cheap \<Rightarrow> LHConsSoln \<Rightarrow> ConsElem \<Rightarrow> LHLevel \<times> LHConsSoln" where
  "LHConsSoln_subst deref s elem = (let s' = solve deref s in (subst_now s' elem, s'))"

section \<open>The constraint kit (LHConstraintKit)\<close>

text \<open>
  Failed assertions and the dereference of a null pointer end the run; they are the
  values of this type.
\<close>

datatype error =
    AlreadyLocked
  | JoinOnRhs
  | AlreadySolved
  | NoDefaultSolution
  | NoKindsGiven
  | ForbiddenKind
  | UnsupportedInstruction
  | NullDereference
  | NotChained
  | InitialMismatch

text \<open>
  \<^verbatim>\<open>PartialSolution\<close> objects live on a heap and are referred to by address (their
  index); \<^verbatim>\<open>Chained\<close> is a vector of such pointers.  \<^verbatim>\<open>VSet\<close> is a
  \<^verbatim>\<open>SmallPtrSet\<close>, kept as a list without repetitions.
\<close>

record PartialSolution =
  P :: vecmap
  VSet :: "nat list"
  Chained :: "nat list"
  initial :: bool

type_synonym heap = "PartialSolution list"

text \<open>
  The kit: \<^verbatim>\<open>constraints\<close> is a \<^verbatim>\<open>StringMap\<close> of constraint vectors, \<^verbatim>\<open>joins\<close> the
  \<^verbatim>\<open>std::set<LHJoin>\<close> of interned joins (each entry is the member set of one stored
  join object, and the position of the entry stands for its address), the two solution
  caches map a kind to a pointer that may be null (\<open>None\<close>).  The two \<^verbatim>\<open>STATISTIC\<close>
  counters are part of the state.
\<close>

record LHConstraintKit =
  constraints :: "string \<rightharpoonup> LHConstraint list"
  lockedConstraintKinds :: "string set"
  vars :: "nat list"
  joins :: "ConsElem list list"
  leastSolutions :: "string \<rightharpoonup> nat option"
  greatestSolutions :: "string \<rightharpoonup> nat option"
  objects :: heap
  explicitLHConstraints :: nat
  implicitLHConstraints :: nat

definition new_kit :: LHConstraintKit where
  "new_kit = \<lparr>constraints = Map.empty, lockedConstraintKinds = {}, vars = [], joins = [],
              leastSolutions = Map.empty, greatestSolutions = Map.empty, objects = [],
              explicitLHConstraints = 0, implicitLHConstraints = 0\<rparr>"

text \<open>\<^verbatim>\<open>newVar\<close>: a fresh variable object; its address is the next unused one.\<close>

definition newVar :: "LHConstraintKit \<Rightarrow> ConsElem \<times> LHConstraintKit" where
  "newVar k = (let a = length (vars k) in (LHConsVar a, k\<lparr>vars := vars k @ [a]\<rparr>))"

definition lowConstant :: ConsElem where
  "lowConstant = LHConstant LOW"

definition highConstant :: ConsElem where
  "highConstant = LHConstant HIGH"

text \<open>
  \<^verbatim>\<open>joins.insert(join).first\<close>: \<^verbatim>\<open>LHJoin::operator<\<close> orders joins by their member
  sets, so the insertion finds the stored join with the same member set, and adds the
  new one only when there is none.  The reference returned is to the stored object.
\<close>

definition joins_insert :: "ConsElem list \<Rightarrow> LHConstraintKit \<Rightarrow> ConsElem \<times> LHConstraintKit" where
  "joins_insert elems k =
     (case find (\<lambda>j. set j = set elems) (joins k) of
        Some j \<Rightarrow> (LHJoin j, k)
      | None \<Rightarrow> (LHJoin elems, k\<lparr>joins := joins k @ [elems]\<rparr>))"

text \<open>The address of the stored join with the given member set, if there is one.\<close>

fun index_of :: "('a \<Rightarrow> bool) \<Rightarrow> 'a list \<Rightarrow> nat option" where
  "index_of p [] = None"
| "index_of p (x # xs) = (if p x then Some 0 else map_option Suc (index_of p xs))"

definition join_address :: "ConsElem list \<Rightarrow> LHConstraintKit \<Rightarrow> nat option" where
  "join_address elems k = index_of (\<lambda>j. set j = set elems) (joins k)"

text \<open>
  \<^verbatim>\<open>LHJoin::create\<close>: the members of a join argument, or the argument itself, are
  inserted into one \<^verbatim>\<open>std::set<const ConsElem *>\<close>.
\<close>

fun join_members :: "ConsElem \<Rightarrow> ConsElem list" where
  "join_members (LHJoin elems) = elems"
| "join_members e = [e]"

definition LHJoin_create :: "ConsElem \<Rightarrow> ConsElem \<Rightarrow> ConsElem list" where
  "LHJoin_create e1 e2 = elemset (join_members e1 @ join_members e2)"

definition upperBound :: "ConsElem \<Rightarrow> ConsElem \<Rightarrow> LHConstraintKit \<Rightarrow> ConsElem \<times> LHConstraintKit" where
  "upperBound e1 e2 k = joins_insert (LHJoin_create e1 e2) k"

text \<open>The overload on pointers: a null argument yields the other argument.\<close>

definition upperBound_ptr ::
  "ConsElem option \<Rightarrow> ConsElem option \<Rightarrow> LHConstraintKit \<Rightarrow> ConsElem option \<times> LHConstraintKit" where
  "upperBound_ptr e1 e2 k =
     (case e1 of None \<Rightarrow> (e2, k)
      | Some a \<Rightarrow> (case e2 of None \<Rightarrow> (e1, k)
          | Some b \<Rightarrow> (let (j, k') = upperBound a b k in (Some j, k'))))"

text \<open>The overload on a \<^verbatim>\<open>std::set<const ConsElem *>\<close>.\<close>

definition upperBound_set :: "ConsElem list \<Rightarrow> LHConstraintKit \<Rightarrow> ConsElem \<times> LHConstraintKit" where
  "upperBound_set elems k = joins_insert (elemset elems) k"

definition getOrCreateConstraintSet :: "string \<Rightarrow> LHConstraintKit \<Rightarrow> LHConstraint list \<times> LHConstraintKit" where
  "getOrCreateConstraintSet kind k =
     (case constraints k kind of
        Some cs \<Rightarrow> (cs, k)
      | None \<Rightarrow> ([], k\<lparr>constraints := (constraints k)(kind \<mapsto> [])\<rparr>))"

text \<open>
  \<^verbatim>\<open>addConstraint\<close>.  The order of the source is kept: the lock assertion, the two
  counters, the constraint vector, the assertion that \<^verbatim>\<open>rhs\<close> is no join, then one
  constraint per member of a join on the left, or the single constraint.
\<close>

definition addConstraint ::
  "string \<Rightarrow> ConsElem \<Rightarrow> ConsElem \<Rightarrow> LHConstraintKit \<Rightarrow> error + LHConstraintKit" where
  "addConstraint kind lhs' rhs' k =
     (if kind \<in> lockedConstraintKinds k then Inl AlreadyLocked
      else
        let k1 = (if kind = ''default''
                  then k\<lparr>explicitLHConstraints := explicitLHConstraints k + 1\<rparr> else k);
            k2 = (if kind = ''implicit''
                  then k1\<lparr>implicitLHConstraints := implicitLHConstraints k1 + 1\<rparr> else k1);
            (cset, k3) = getOrCreateConstraintSet kind k2
        in if isa_LHJoin rhs' then Inl JoinOnRhs
           else (case lhs' of
                   LHJoin elems \<Rightarrow>
                     Inr (k3\<lparr>constraints := (constraints k3)
                            (kind \<mapsto> cset @ map (\<lambda>elem. LHConstraint elem rhs') elems)\<rparr>)
                 | _ \<Rightarrow>
                     Inr (k3\<lparr>constraints := (constraints k3)
                            (kind \<mapsto> cset @ [LHConstraint lhs' rhs'])\<rparr>)))"

section \<open>Flow records and the per-instruction rules (Infoflow)\<close>

text \<open>
  An \<^verbatim>\<open>llvm::Value\<close> (instructions, basic blocks, arguments and functions alike), an
  abstract location and a context are identified by their address or id.  The
  \<^verbatim>\<open>SmallPtrSet\<close>s of a flow record are lists without repetitions.
\<close>

record FlowRecord =
  implicit :: bool
  valueSources :: "nat list"
  directPtrSources :: "nat list"
  reachPtrSources :: "nat list"
  valueSinks :: "nat list"
  directPtrSinks :: "nat list"
  reachPtrSinks :: "nat list"
  vargSources :: "nat list"
  vargSinks :: "nat list"
  sourceCtxt :: nat
  sinkCtxt :: nat

definition FlowRecord_new :: "bool \<Rightarrow> nat \<Rightarrow> nat \<Rightarrow> FlowRecord" where
  "FlowRecord_new type source sink =
     \<lparr>implicit = type, valueSources = [], directPtrSources = [], reachPtrSources = [],
      valueSinks = [], directPtrSinks = [], reachPtrSinks = [], vargSources = [], vargSinks = [],
      sourceCtxt = source, sinkCtxt = sink\<rparr>"

definition ptrset_insert :: "nat \<Rightarrow> nat list \<Rightarrow> nat list" where
  "ptrset_insert v xs = (if v \<in> set xs then xs else xs @ [v])"

definition addSourceValue :: "nat \<Rightarrow> FlowRecord \<Rightarrow> FlowRecord" where
  "addSourceValue v r = r\<lparr>valueSources := ptrset_insert v (valueSources r)\<rparr>"

definition addSourceDirectPtr :: "nat \<Rightarrow> FlowRecord \<Rightarrow> FlowRecord" where
  "addSourceDirectPtr v r = r\<lparr>directPtrSources := ptrset_insert v (directPtrSources r)\<rparr>"

definition addSourceReachablePtr :: "nat \<Rightarrow> FlowRecord \<Rightarrow> FlowRecord" where
  "addSourceReachablePtr v r = r\<lparr>reachPtrSources := ptrset_insert v (reachPtrSources r)\<rparr>"

definition addSourceVarg :: "nat \<Rightarrow> FlowRecord \<Rightarrow> FlowRecord" where
  "addSourceVarg f r = r\<lparr>vargSources := ptrset_insert f (vargSources r)\<rparr>"

definition addSinkValue :: "nat \<Rightarrow> FlowRecord \<Rightarrow> FlowRecord" where
  "addSinkValue v r = r\<lparr>valueSinks := ptrset_insert v (valueSinks r)\<rparr>"

definition addSinkDirectPtr :: "nat \<Rightarrow> FlowRecord \<Rightarrow> FlowRecord" where
  "addSinkDirectPtr v r = r\<lparr>directPtrSinks := ptrset_insert v (directPtrSinks r)\<rparr>"

definition addSinkReachablePtr :: "nat \<Rightarrow> FlowRecord \<Rightarrow> FlowRecord" where
  "addSinkReachablePtr v r = r\<lparr>reachPtrSinks := ptrset_insert v (reachPtrSinks r)\<rparr>"

definition addSinkVarg :: "nat \<Rightarrow> FlowRecord \<Rightarrow> FlowRecord" where
  "addSinkVarg f r = r\<lparr>vargSinks := ptrset_insert f (vargSinks r)\<rparr>"

text \<open>
  The instruction classes that \<^verbatim>\<open>getInstructionFlowsInternal\<close>,
  \<^verbatim>\<open>constrainUnaryInstruction\<close> and \<^verbatim>\<open>constrainTerminatorInst\<close> tell apart with
  \<^verbatim>\<open>dyn_cast\<close>.  The last three stand for a unary instruction, a terminator and an
  instruction outside the enumerated classes.
\<close>

datatype Opcode =
    AtomicCmpXchgInst | AtomicRMWInst | BinaryOperator | CallInst | CmpInst
  | ExtractElementInst | FenceInst | GetElementPtrInst | InsertElementInst | InsertValueInst
  | LandingPadInst | PHINode | SelectInst | ShuffleVectorInst | StoreInst
  | BranchInst | IndirectBrInst | InvokeInst | ReturnInst | ResumeInst | SwitchInst
  | UnreachableInst
  | AllocaInst | CastInst | ExtractValueInst | LoadInst | VAArgInst
  | OtherUnaryInstruction | OtherTerminatorInst | OtherInstruction

datatype IntrinsicID =
    vastart | vaend | vacopy | memcpy | memmove | memset
  | sqrt_intr | powi | sin_intr | cos_intr | pow_intr | exp_intr | log_intr | fma | other_intrinsic

text \<open>
  What the rules read from an instruction through the IR's accessors: the instruction as
  a value, its basic block, its function, its operand list, the named operands, the
  successors of a terminator, and the intrinsic id of an intrinsic call.
\<close>

record Instruction =
  opcode :: Opcode
  self :: nat
  getParent :: nat
  getFunction :: nat
  operands :: "nat list"
  getPointerOperand :: nat
  getValueOperand :: nat
  getCompareOperand :: nat
  getNewValOperand :: nat
  getCondition :: nat
  getCalledValue :: nat
  isConditional :: bool
  successors :: "nat list"
  intrinsic :: "IntrinsicID option"
  getArgOperand :: "nat \<Rightarrow> nat"

text \<open>
  The analysis' view of the function at hand: the terminator successors of each basic
  block, the post-dominator tree's \<^verbatim>\<open>dominates\<close> (from \<^verbatim>\<open>PDTCache\<close>), the current
  context, and the flow records that \<^verbatim>\<open>constrainCallSite\<close> yields for a call site (it
  consults the call graph, the signature library and the interprocedural driver).
\<close>

record Env =
  blockSuccessors :: "nat \<Rightarrow> nat list"
  pdt_dominates :: "nat \<Rightarrow> nat \<Rightarrow> bool"
  getCurrentContext :: nat
  callSiteFlows :: "Instruction \<Rightarrow> bool \<Rightarrow> FlowRecord list"

type_synonym Flows = "FlowRecord list"

definition currentContextFlowRecord :: "Env \<Rightarrow> bool \<Rightarrow> FlowRecord" where
  "currentContextFlowRecord env imp =
     FlowRecord_new imp (getCurrentContext env) (getCurrentContext env)"

definition operandsAndPCtoValue :: "Env \<Rightarrow> Instruction \<Rightarrow> Flows \<Rightarrow> Flows" where
  "operandsAndPCtoValue env inst flows =
     (let exp = currentContextFlowRecord env False;
          imp = currentContextFlowRecord env True;
          imp = addSourceValue (getParent inst) imp;
          exp = fold addSourceValue (operands inst) exp;
          exp = addSinkValue (self inst) exp;
          imp = addSinkValue (self inst) imp
      in flows @ [exp, imp])"

text \<open>
  \<^verbatim>\<open>constrainConditionalSuccessors\<close>.  The loop takes the front of the work queue,
  marks it visited, and, when it does not post-dominate the terminator's block, makes it
  a sink and walks its successors; the test inside that walk is
  \<^verbatim>\<open>visited.find(cur) == visited.end()\<close>, on \<^verbatim>\<open>cur\<close>.
\<close>

function ccs_loop :: "Env \<Rightarrow> nat \<Rightarrow> nat set \<Rightarrow> nat list \<Rightarrow> FlowRecord \<Rightarrow> FlowRecord" where
  "ccs_loop env bb visited [] rec = rec"
| "ccs_loop env bb visited (cur # workqueue) rec =
     (let visited' = insert cur visited in
      if \<not> pdt_dominates env cur bb
      then ccs_loop env bb visited'
             (workqueue @ filter (\<lambda>succ. cur \<notin> visited') (blockSuccessors env cur))
             (addSinkValue cur rec)
      else ccs_loop env bb visited' workqueue rec)"
  by pat_completeness auto
termination
  by (relation "measure (\<lambda>(env, bb, visited, workqueue, rec). length workqueue)") auto

definition constrainConditionalSuccessors :: "Env \<Rightarrow> Instruction \<Rightarrow> FlowRecord \<Rightarrow> FlowRecord" where
  "constrainConditionalSuccessors env term rec = ccs_loop env (getParent term) {} (successors term) rec"

definition constrainBranchInst :: "Env \<Rightarrow> Instruction \<Rightarrow> Flows \<Rightarrow> Flows" where
  "constrainBranchInst env inst flows =
     (if \<not> isConditional inst then flows
      else let flow = currentContextFlowRecord env True;
               flow = addSourceValue (getParent inst) flow;
               flow = addSourceValue (getCondition inst) flow;
               flow = constrainConditionalSuccessors env inst flow
           in flows @ [flow])"

text \<open>\<^verbatim>\<open>constrainIndirectBrInst\<close> (the address) and \<^verbatim>\<open>constrainSwitchInst\<close> (the condition).\<close>

definition constrainIndirectBrInst :: "Env \<Rightarrow> Instruction \<Rightarrow> Flows \<Rightarrow> Flows" where
  "constrainIndirectBrInst env inst flows =
     (let flow = currentContextFlowRecord env True;
          flow = addSourceValue (getParent inst) flow;
          flow = addSourceValue (getCondition inst) flow;
          flow = constrainConditionalSuccessors env inst flow
      in flows @ [flow])"

definition constrainSwitchInst :: "Env \<Rightarrow> Instruction \<Rightarrow> Flows \<Rightarrow> Flows" where
  "constrainSwitchInst env inst flows =
     (let flow = currentContextFlowRecord env True;
          flow = addSourceValue (getParent inst) flow;
          flow = addSourceValue (getCondition inst) flow;
          flow = constrainConditionalSuccessors env inst flow
      in flows @ [flow])"

definition constrainInvokeInst :: "Env \<Rightarrow> Instruction \<Rightarrow> bool \<Rightarrow> Flows \<Rightarrow> Flows" where
  "constrainInvokeInst env inst analyzeCallees flows =
     (let flows = flows @ callSiteFlows env inst analyzeCallees;
          flow = currentContextFlowRecord env True;
          flow = addSourceValue (getParent inst) flow;
          flow = addSourceValue (getCalledValue inst) flow;
          flow = constrainConditionalSuccessors env inst flow
      in flows @ [flow])"

definition constrainReturnInst :: "Env \<Rightarrow> Instruction \<Rightarrow> Flows \<Rightarrow> Flows" where
  "constrainReturnInst env inst flows =
     (if length (operands inst) \<noteq> 0 then operandsAndPCtoValue env inst flows else flows)"

text \<open>\<^verbatim>\<open>constraintUnreachableInst\<close>: intentionally blank.\<close>

definition constraintUnreachableInst :: "Instruction \<Rightarrow> Flows \<Rightarrow> error + Flows" where
  "constraintUnreachableInst inst flows = Inr flows"

text \<open>
  \<^verbatim>\<open>constrainFenceInst\<close>: its comment reads ``Memory barrier instruction. Treat as
  noop.''; its body is \<^verbatim>\<open>assert(false && "Unsupported instruction type: fence")\<close>.
\<close>

definition constrainFenceInst :: "Instruction \<Rightarrow> Flows \<Rightarrow> error + Flows" where
  "constrainFenceInst inst flows = Inl UnsupportedInstruction"

definition constrainStoreInst :: "Env \<Rightarrow> Instruction \<Rightarrow> Flows \<Rightarrow> Flows" where
  "constrainStoreInst env inst flows =
     (let exp = currentContextFlowRecord env False;
          imp = currentContextFlowRecord env True;
          imp = addSourceValue (getParent inst) imp;
          imp = addSourceValue (getPointerOperand inst) imp;
          exp = addSourceValue (getValueOperand inst) exp;
          exp = addSinkDirectPtr (getPointerOperand inst) exp;
          imp = addSinkDirectPtr (getPointerOperand inst) imp
      in flows @ [imp, exp])"

definition constrainLoadInst :: "Env \<Rightarrow> Instruction \<Rightarrow> Flows \<Rightarrow> Flows" where
  "constrainLoadInst env inst flows =
     (let exp = currentContextFlowRecord env False;
          imp = currentContextFlowRecord env True;
          imp = addSourceValue (getParent inst) imp;
          imp = addSourceValue (getPointerOperand inst) imp;
          exp = addSourceDirectPtr (getPointerOperand inst) exp;
          exp = addSinkValue (self inst) exp;
          imp = addSinkValue (self inst) imp
      in flows @ [exp, imp])"

definition constrainAtomicRMWInst :: "Env \<Rightarrow> Instruction \<Rightarrow> Flows \<Rightarrow> Flows" where
  "constrainAtomicRMWInst env inst flows =
     (let expToMem = currentContextFlowRecord env False;
          impToMem = currentContextFlowRecord env True;
          impToMem = addSourceValue (getParent inst) impToMem;
          expToMem = addSourceValue (getValueOperand inst) expToMem;
          impToMem = addSourceValue (getPointerOperand inst) impToMem;
          impToMem = addSinkDirectPtr (getPointerOperand inst) impToMem;
          expToMem = addSinkDirectPtr (getPointerOperand inst) expToMem
      in flows @ [impToMem, expToMem])"

definition constrainAtomicCmpXchgInst :: "Env \<Rightarrow> Instruction \<Rightarrow> Flows \<Rightarrow> Flows" where
  "constrainAtomicCmpXchgInst env inst flows =
     (let expToMem = currentContextFlowRecord env False;
          impToMem = currentContextFlowRecord env True;
          impToMem = addSourceValue (getParent inst) impToMem;
          impToMem = addSourceValue (getPointerOperand inst) impToMem;
          expToMem = addSourceValue (getCompareOperand inst) expToMem;
          expToMem = addSourceValue (getNewValOperand inst) expToMem;
          expToMem = addSinkDirectPtr (getPointerOperand inst) expToMem;
          impToMem = addSinkDirectPtr (getPointerOperand inst) impToMem;
          expFromMem = currentContextFlowRecord env False;
          impFromMem = currentContextFlowRecord env True;
          impFromMem = addSourceValue (getParent inst) impFromMem;
          impFromMem = addSourceValue (getPointerOperand inst) impFromMem;
          expFromMem = addSourceDirectPtr (getPointerOperand inst) expFromMem;
          expFromMem = addSinkValue (self inst) expFromMem;
          impFromMem = addSinkValue (self inst) impFromMem
      in flows @ [expToMem, impToMem, expFromMem, impFromMem])"

definition constrainVAArgInst :: "Env \<Rightarrow> Instruction \<Rightarrow> Flows \<Rightarrow> Flows" where
  "constrainVAArgInst env inst flows =
     (let exp = currentContextFlowRecord env False;
          imp = currentContextFlowRecord env True;
          imp = addSourceValue (getParent inst) imp;
          imp = addSourceValue (getPointerOperand inst) imp;
          exp = addSourceDirectPtr (getPointerOperand inst) exp;
          imp = addSourceVarg (getFunction inst) imp;
          exp = addSinkValue (self inst) exp;
          imp = addSinkValue (self inst) imp;
          imp = addSinkDirectPtr (getPointerOperand inst) imp;
          imp = addSinkVarg (getFunction inst) imp
      in flows @ [exp, imp])"

definition constrainMemcpyOrmove :: "Instruction \<Rightarrow> Flows \<Rightarrow> Flows" where
  "constrainMemcpyOrmove intr flows =
     (let imp = FlowRecord_new True 0 0;
          exp = FlowRecord_new False 0 0;
          exp = addSourceDirectPtr (getArgOperand intr 1) exp;
          imp = addSourceValue (getArgOperand intr 1) imp;
          imp = addSourceValue (getArgOperand intr 2) imp;
          imp = addSourceValue (getArgOperand intr 3) imp;
          exp = addSinkDirectPtr (getArgOperand intr 0) exp;
          imp = addSinkDirectPtr (getArgOperand intr 0) imp
      in flows @ [exp, imp])"

definition constrainMemset :: "Instruction \<Rightarrow> Flows \<Rightarrow> Flows" where
  "constrainMemset intr flows =
     (let exp = FlowRecord_new False 0 0;
          imp = FlowRecord_new True 0 0;
          exp = addSourceValue (getArgOperand intr 1) exp;
          imp = addSourceValue (getArgOperand intr 2) imp;
          imp = addSourceValue (getArgOperand intr 3) imp;
          exp = addSinkDirectPtr (getArgOperand intr 0) exp;
          imp = addSinkDirectPtr (getArgOperand intr 0) imp
      in flows @ [exp, imp])"

fun constrainIntrinsic :: "Env \<Rightarrow> IntrinsicID \<Rightarrow> Instruction \<Rightarrow> Flows \<Rightarrow> Flows" where
  "constrainIntrinsic env vastart intr flows = flows"
| "constrainIntrinsic env vaend intr flows = flows"
| "constrainIntrinsic env vacopy intr flows = flows"
| "constrainIntrinsic env memcpy intr flows = constrainMemcpyOrmove intr flows"
| "constrainIntrinsic env memmove intr flows = constrainMemcpyOrmove intr flows"
| "constrainIntrinsic env memset intr flows = constrainMemset intr flows"
| "constrainIntrinsic env other_intrinsic intr flows = flows"
| "constrainIntrinsic env math intr flows = operandsAndPCtoValue env intr flows"

definition constrainCallInst :: "Env \<Rightarrow> Instruction \<Rightarrow> bool \<Rightarrow> Flows \<Rightarrow> Flows" where
  "constrainCallInst env inst analyzeCallees flows =
     (case intrinsic inst of
        Some iid \<Rightarrow> constrainIntrinsic env iid inst flows
      | None \<Rightarrow> flows @ callSiteFlows env inst analyzeCallees)"

fun constrainUnaryInstruction :: "Env \<Rightarrow> Opcode \<Rightarrow> Instruction \<Rightarrow> Flows \<Rightarrow> error + Flows" where
  "constrainUnaryInstruction env AllocaInst inst flows = Inr (operandsAndPCtoValue env inst flows)"
| "constrainUnaryInstruction env CastInst inst flows = Inr (operandsAndPCtoValue env inst flows)"
| "constrainUnaryInstruction env ExtractValueInst inst flows = Inr (operandsAndPCtoValue env inst flows)"
| "constrainUnaryInstruction env LoadInst inst flows = Inr (constrainLoadInst env inst flows)"
| "constrainUnaryInstruction env VAArgInst inst flows = Inr (constrainVAArgInst env inst flows)"
| "constrainUnaryInstruction env opc inst flows = Inl UnsupportedInstruction"

fun constrainTerminatorInst :: "Env \<Rightarrow> Opcode \<Rightarrow> Instruction \<Rightarrow> bool \<Rightarrow> Flows \<Rightarrow> error + Flows" where
  "constrainTerminatorInst env BranchInst inst callees flows = Inr (constrainBranchInst env inst flows)"
| "constrainTerminatorInst env IndirectBrInst inst callees flows = Inr (constrainIndirectBrInst env inst flows)"
| "constrainTerminatorInst env InvokeInst inst callees flows = Inr (constrainInvokeInst env inst callees flows)"
| "constrainTerminatorInst env ReturnInst inst callees flows = Inr (constrainReturnInst env inst flows)"
| "constrainTerminatorInst env ResumeInst inst callees flows = Inr (operandsAndPCtoValue env inst flows)"
| "constrainTerminatorInst env SwitchInst inst callees flows = Inr (constrainSwitchInst env inst flows)"
| "constrainTerminatorInst env UnreachableInst inst callees flows = constraintUnreachableInst inst flows"
| "constrainTerminatorInst env opc inst callees flows = Inl UnsupportedInstruction"

text \<open>\<^verbatim>\<open>getInstructionFlowsInternal\<close>: the chain of \<^verbatim>\<open>dyn_cast\<close> tests, in its order.\<close>

fun dispatchInstruction :: "Env \<Rightarrow> Opcode \<Rightarrow> Instruction \<Rightarrow> bool \<Rightarrow> Flows \<Rightarrow> error + Flows" where
  "dispatchInstruction env AtomicCmpXchgInst inst callees flows = Inr (constrainAtomicCmpXchgInst env inst flows)"
| "dispatchInstruction env AtomicRMWInst inst callees flows = Inr (constrainAtomicRMWInst env inst flows)"
| "dispatchInstruction env BinaryOperator inst callees flows = Inr (operandsAndPCtoValue env inst flows)"
| "dispatchInstruction env CallInst inst callees flows = Inr (constrainCallInst env inst callees flows)"
| "dispatchInstruction env CmpInst inst callees flows = Inr (operandsAndPCtoValue env inst flows)"
| "dispatchInstruction env ExtractElementInst inst callees flows = Inr (operandsAndPCtoValue env inst flows)"
| "dispatchInstruction env FenceInst inst callees flows = constrainFenceInst inst flows"
| "dispatchInstruction env GetElementPtrInst inst callees flows = Inr (operandsAndPCtoValue env inst flows)"
| "dispatchInstruction env InsertElementInst inst callees flows = Inr (operandsAndPCtoValue env inst flows)"
| "dispatchInstruction env InsertValueInst inst callees flows = Inr (operandsAndPCtoValue env inst flows)"
| "dispatchInstruction env LandingPadInst inst callees flows = Inr (operandsAndPCtoValue env inst flows)"
| "dispatchInstruction env PHINode inst callees flows = Inr (operandsAndPCtoValue env inst flows)"
| "dispatchInstruction env SelectInst inst callees flows = Inr (operandsAndPCtoValue env inst flows)"
| "dispatchInstruction env ShuffleVectorInst inst callees flows = Inr (operandsAndPCtoValue env inst flows)"
| "dispatchInstruction env StoreInst inst callees flows = Inr (constrainStoreInst env inst flows)"
| "dispatchInstruction env BranchInst inst callees flows = constrainTerminatorInst env BranchInst inst callees flows"
| "dispatchInstruction env IndirectBrInst inst callees flows = constrainTerminatorInst env IndirectBrInst inst callees flows"
| "dispatchInstruction env InvokeInst inst callees flows = constrainTerminatorInst env InvokeInst inst callees flows"
| "dispatchInstruction env ReturnInst inst callees flows = constrainTerminatorInst env ReturnInst inst callees flows"
| "dispatchInstruction env ResumeInst inst callees flows = constrainTerminatorInst env ResumeInst inst callees flows"
| "dispatchInstruction env SwitchInst inst callees flows = constrainTerminatorInst env SwitchInst inst callees flows"
| "dispatchInstruction env UnreachableInst inst callees flows = constrainTerminatorInst env UnreachableInst inst callees flows"
| "dispatchInstruction env OtherTerminatorInst inst callees flows = constrainTerminatorInst env OtherTerminatorInst inst callees flows"
| "dispatchInstruction env AllocaInst inst callees flows = constrainUnaryInstruction env AllocaInst inst flows"
| "dispatchInstruction env CastInst inst callees flows = constrainUnaryInstruction env CastInst inst flows"
| "dispatchInstruction env ExtractValueInst inst callees flows = constrainUnaryInstruction env ExtractValueInst inst flows"
| "dispatchInstruction env LoadInst inst callees flows = constrainUnaryInstruction env LoadInst inst flows"
| "dispatchInstruction env VAArgInst inst callees flows = constrainUnaryInstruction env VAArgInst inst flows"
| "dispatchInstruction env OtherUnaryInstruction inst callees flows = constrainUnaryInstruction env OtherUnaryInstruction inst flows"
| "dispatchInstruction env OtherInstruction inst callees flows = Inl UnsupportedInstruction"

definition getInstructionFlowsInternal :: "Env \<Rightarrow> Instruction \<Rightarrow> bool \<Rightarrow> Flows \<Rightarrow> error + Flows" where
  "getInstructionFlowsInternal env inst callees flows = dispatchInstruction env (opcode inst) inst callees flows"

text \<open>
  \<^verbatim>\<open>generateBasicBlockConstraints\<close> walks the instructions of a block, and the first
  loop of \<^verbatim>\<open>generateFunctionConstraints\<close> the blocks of a function; a failed assertion
  ends the walk.
\<close>

fun generateBasicBlockConstraints :: "Env \<Rightarrow> Instruction list \<Rightarrow> Flows \<Rightarrow> error + Flows" where
  "generateBasicBlockConstraints env [] flows = Inr flows"
| "generateBasicBlockConstraints env (inst # rest) flows =
     (case getInstructionFlowsInternal env inst True flows of
        Inl e \<Rightarrow> Inl e
      | Inr flows' \<Rightarrow> generateBasicBlockConstraints env rest flows')"

fun generateFunctionFlows :: "Env \<Rightarrow> Instruction list list \<Rightarrow> Flows \<Rightarrow> error + Flows" where
  "generateFunctionFlows env [] flows = Inr flows"
| "generateFunctionFlows env (bb # rest) flows =
     (case generateBasicBlockConstraints env bb flows of
        Inl e \<Rightarrow> Inl e
      | Inr flows' \<Rightarrow> generateFunctionFlows env rest flows')"

section \<open>The propagation solver (PartialSolution)\<close>

definition boolToLHC :: "bool \<Rightarrow> LHLevel" where
  "boolToLHC B = (if B then HIGH else LOW)"

text \<open>\<^verbatim>\<open>isChanged\<close>: some chained solution has the variable in its \<^verbatim>\<open>VSet\<close>.\<close>

definition isChanged :: "heap \<Rightarrow> nat \<Rightarrow> nat \<Rightarrow> bool" where
  "isChanged h this V = list_ex (\<lambda>CI. V \<in> set (VSet (h ! CI))) (Chained (h ! this))"

text \<open>\<^verbatim>\<open>PartialSolution::subst\<close>; a join starts from \<^verbatim>\<open>LHConstant::low()\<close>.\<close>

fun PartialSolution_subst :: "heap \<Rightarrow> nat \<Rightarrow> ConsElem \<Rightarrow> LHLevel" where
  "PartialSolution_subst h this (LHConsVar V) = boolToLHC (initial (h ! this) \<noteq> isChanged h this V)"
| "PartialSolution_subst h this (LHConstant LHC) = LHC"
| "PartialSolution_subst h this (LHJoin elements) =
     fold (\<lambda>elem substVal. LHConstant_join substVal (PartialSolution_subst h this elem))
       elements LOW"

text \<open>
  The loops of \<^verbatim>\<open>propagate\<close>.  They write the \<^verbatim>\<open>VSet\<close> of the solution itself and read
  the propagation maps and the \<^verbatim>\<open>VSet\<close>s of the chained solutions; the solution is one of
  them (the assertion at the head of \<^verbatim>\<open>propagate\<close>).  So the loops are a function of the
  maps \<open>Ps\<close> of the chained solutions in their order, the \<^verbatim>\<open>VSet\<close>s \<open>others\<close> of the
  chained solutions other than itself, the own \<^verbatim>\<open>VSet\<close> and the work list.
\<close>

definition isChanged_in :: "nat list list \<Rightarrow> nat list \<Rightarrow> nat \<Rightarrow> bool" where
  "isChanged_in others own V = (V \<in> set own \<or> list_ex (\<lambda>vs. V \<in> set vs) others)"

definition propagate_updates ::
  "nat list list \<Rightarrow> nat list \<Rightarrow> nat list \<times> nat list \<Rightarrow> nat list \<times> nat list" where
  "propagate_updates others Updates st =
     fold (\<lambda>I (own, workList).
             if \<not> isChanged_in others own I then (own @ [I], workList @ [I])
             else (own, workList))
       Updates st"

definition propagate_var ::
  "vecmap list \<Rightarrow> nat list list \<Rightarrow> nat \<Rightarrow> nat list \<times> nat list \<Rightarrow> nat list \<times> nat list" where
  "propagate_var Ps others V st =
     fold (\<lambda>PM st. case map_of PM V of None \<Rightarrow> st
                    | Some Updates \<Rightarrow> propagate_updates others Updates st)
       Ps st"

definition prop_universe :: "vecmap list \<Rightarrow> nat set" where
  "prop_universe Ps = (\<Union>PM \<in> set Ps. vm_range PM)"

definition prop_measure :: "vecmap list \<Rightarrow> nat list list \<Rightarrow> nat list \<Rightarrow> nat list \<Rightarrow> nat \<times> nat" where
  "prop_measure Ps others own workList =
     (card (prop_universe Ps - (set own \<union> (\<Union>vs \<in> set others. set vs))), length workList)"

lemma finite_prop_universe: "finite (prop_universe Ps)"
  by (auto simp: prop_universe_def vm_range_def)

lemma isChanged_in_iff: "isChanged_in others own V \<longleftrightarrow> V \<in> set own \<union> (\<Union>vs \<in> set others. set vs)"
  by (auto simp: isChanged_in_def list_ex_iff)

text \<open>
  What the inner loops keep: the own set and the work list receive the same new
  variables, each a target of some propagation map and not changed before.
\<close>

definition prop_rel :: "nat list list \<Rightarrow> nat set \<Rightarrow> nat list \<times> nat list \<Rightarrow> nat list \<times> nat list \<Rightarrow> bool" where
  "prop_rel others U st st' \<longleftrightarrow>
     (\<exists>new. fst st' = fst st @ new \<and> snd st' = snd st @ new \<and> set new \<subseteq> U \<and>
            (\<forall>x \<in> set new. \<not> isChanged_in others (fst st) x))"

lemma prop_rel_refl: "prop_rel others U st st"
  by (simp add: prop_rel_def)

lemma prop_rel_trans:
  assumes "prop_rel others U a b" "prop_rel others U b c"
  shows "prop_rel others U a c"
proof -
  from assms(1) obtain n1 where 1: "fst b = fst a @ n1" "snd b = snd a @ n1" "set n1 \<subseteq> U"
    "\<forall>x \<in> set n1. \<not> isChanged_in others (fst a) x" unfolding prop_rel_def by blast
  from assms(2) obtain n2 where 2: "fst c = fst b @ n2" "snd c = snd b @ n2" "set n2 \<subseteq> U"
    "\<forall>x \<in> set n2. \<not> isChanged_in others (fst b) x" unfolding prop_rel_def by blast
  have "\<forall>x \<in> set n2. \<not> isChanged_in others (fst a) x"
    using 2(4) 1(1) by (auto simp: isChanged_in_def)
  then show ?thesis unfolding prop_rel_def
    using 1 2 by (intro exI[of _ "n1 @ n2"]) auto
qed

lemma propagate_updates_rel: "prop_rel others (set Updates) st (propagate_updates others Updates st)"
proof (induction Updates arbitrary: st)
  case Nil show ?case by (simp add: propagate_updates_def prop_rel_refl)
next
  case (Cons I Us)
  obtain own wl where st: "st = (own, wl)" by (cases st)
  let ?st1 = "if \<not> isChanged_in others own I then (own @ [I], wl @ [I]) else (own, wl)"
  have s1: "prop_rel others (set (I # Us)) st ?st1"
    unfolding prop_rel_def st by (cases "isChanged_in others own I") auto
  have "prop_rel others (set Us) ?st1 (propagate_updates others Us ?st1)" by (rule Cons)
  then have s2: "prop_rel others (set (I # Us)) ?st1 (propagate_updates others Us ?st1)"
    unfolding prop_rel_def by auto
  have "propagate_updates others (I # Us) st = propagate_updates others Us ?st1"
    by (simp add: propagate_updates_def st)
  with prop_rel_trans[OF s1 s2] show ?case by simp
qed

lemma propagate_var_rel: "prop_rel others (prop_universe Ps) st (propagate_var Ps others V st)"
proof (induction Ps arbitrary: st)
  case Nil show ?case by (simp add: propagate_var_def prop_rel_refl)
next
  case (Cons PM Ps)
  let ?st1 = "case map_of PM V of None \<Rightarrow> st | Some Updates \<Rightarrow> propagate_updates others Updates st"
  have s1: "prop_rel others (prop_universe (PM # Ps)) st ?st1"
  proof (cases "map_of PM V")
    case None then show ?thesis by (simp add: prop_rel_refl)
  next
    case (Some Us)
    then have "(V, Us) \<in> set PM" by (rule map_of_SomeD)
    then have "set Us \<subseteq> prop_universe (PM # Ps)" unfolding prop_universe_def vm_range_def by force
    with propagate_updates_rel[of others Us st] Some show ?thesis
      unfolding prop_rel_def by auto
  qed
  have "prop_rel others (prop_universe Ps) ?st1 (propagate_var Ps others V ?st1)" by (rule Cons)
  then have s2: "prop_rel others (prop_universe (PM # Ps)) ?st1 (propagate_var Ps others V ?st1)"
    unfolding prop_rel_def prop_universe_def by auto
  have "propagate_var (PM # Ps) others V st = propagate_var Ps others V ?st1"
    by (simp add: propagate_var_def)
  with prop_rel_trans[OF s1 s2] show ?case by simp
qed

lemma propagate_var_decreases:
  assumes "propagate_var Ps others V (own, rest) = (own', workList')"
  shows "(prop_measure Ps others own' workList', prop_measure Ps others own (V # rest))
           \<in> less_than <*lex*> less_than"
proof -
  from propagate_var_rel[of others Ps "(own, rest)" V] assms
  obtain new where n: "own' = own @ new" "workList' = rest @ new" "set new \<subseteq> prop_universe Ps"
    "\<forall>x \<in> set new. \<not> isChanged_in others own x" unfolding prop_rel_def by auto
  let ?ch = "set own \<union> (\<Union>vs \<in> set others. set vs)"
  let ?ch' = "set own' \<union> (\<Union>vs \<in> set others. set vs)"
  show ?thesis
  proof (cases new)
    case Nil
    with n show ?thesis by (simp add: prop_measure_def)
  next
    case (Cons x xs)
    then have x: "x \<in> prop_universe Ps" "x \<notin> ?ch" "x \<in> ?ch'"
      using n by (auto simp: isChanged_in_iff)
    have "prop_universe Ps - ?ch' \<subset> prop_universe Ps - ?ch" using x n(1) by auto
    then have "card (prop_universe Ps - ?ch') < card (prop_universe Ps - ?ch)"
      by (intro psubset_card_mono) (auto simp: finite_prop_universe)
    then show ?thesis by (simp add: prop_measure_def)
  qed
qed

lemma propagate_var_decreases':
  "(case propagate_var Ps others V (own, rest) of (x, xa) \<Rightarrow> prop_measure Ps others x xa,
    prop_measure Ps others own (V # rest)) \<in> less_than <*lex*> less_than"
  using propagate_var_decreases[of Ps others V own rest]
  by (cases "propagate_var Ps others V (own, rest)") (simp del: in_lex_prod)

function propagate_loop :: "vecmap list \<Rightarrow> nat list list \<Rightarrow> nat list \<Rightarrow> nat list \<Rightarrow> nat list" where
  "propagate_loop Ps others own [] = own"
| "propagate_loop Ps others own (V # workList) =
     (let st = propagate_var Ps others V (own, workList)
      in propagate_loop Ps others (fst st) (snd st))"
  by pat_completeness auto
termination
  by (relation "inv_image (less_than <*lex*> less_than)
                  (\<lambda>(Ps, others, own, workList). prop_measure Ps others own workList)")
     (auto intro: propagate_var_decreases' simp del: in_lex_prod)

text \<open>
  \<^verbatim>\<open>propagate\<close>: the two assertions, the work list seeded with every chained \<^verbatim>\<open>VSet\<close>,
  then the loops.
\<close>

definition propagate :: "heap \<Rightarrow> nat \<Rightarrow> error + heap" where
  "propagate h this =
     (let obj = h ! this; ch = Chained obj in
      if ch = [] \<or> this \<notin> set ch then Inl NotChained
      else let workList = concat (map (\<lambda>CI. VSet (h ! CI)) ch);
               Ps = map (\<lambda>CI. P (h ! CI)) ch;
               others = map (\<lambda>CI. VSet (h ! CI)) (filter (\<lambda>CI. CI \<noteq> this) ch)
           in Inr (h[this := obj\<lparr>VSet := propagate_loop Ps others (VSet obj) workList\<rparr>]))"

text \<open>
  One round of the loop of \<^verbatim>\<open>initialize\<close>: the sides are taken by orientation, a
  constraint without target variables is skipped, the targets are appended to the map
  entry of every source variable, and the targets enter \<^verbatim>\<open>VSet\<close> when the source side,
  under the solution as it stands, has the non-default value.
\<close>

definition initialize_constraint :: "nat \<Rightarrow> LHConstraint \<Rightarrow> heap \<Rightarrow> heap" where
  "initialize_constraint this c h =
     (let obj = h ! this;
          From = (if initial obj then rhs c else lhs c);
          To = (if initial obj then lhs c else rhs c);
          vars = sorted_list_of_set (variables From);
          targets = sorted_list_of_set (variables To)
      in if targets = [] then h
         else
           let h1 = h[this := obj\<lparr>P := fold (\<lambda>var m. vm_append var targets m) vars (P obj)\<rparr>];
               fire = (if initial obj
                       then LHConstant_leq (PartialSolution_subst h1 this From) (LHConstant LOW)
                       else \<not> LHConstant_leq (PartialSolution_subst h1 this From) (LHConstant LOW))
           in if fire
              then h1[this := (h1 ! this)\<lparr>VSet := fold ptrset_insert targets (VSet (h1 ! this))\<rparr>]
              else h1)"

definition initialize :: "LHConstraint list \<Rightarrow> nat \<Rightarrow> heap \<Rightarrow> heap" where
  "initialize C this h =
     fold (initialize_constraint this) C (h[this := (h ! this)\<lparr>Chained := Chained (h ! this) @ [this]\<rparr>])"

text \<open>
  The constructor \<^verbatim>\<open>PartialSolution(Constraints &C, bool initial)\<close>: the new object takes
  the next address.
\<close>

definition PartialSolution_new :: "LHConstraint list \<Rightarrow> bool \<Rightarrow> heap \<Rightarrow> error + (nat \<times> heap)" where
  "PartialSolution_new C init h =
     (let this = length h;
          h0 = h @ [\<lparr>P = [], VSet = [], Chained = [], initial = init\<rparr>];
          h1 = initialize C this h0
      in case propagate h1 this of Inl e \<Rightarrow> Inl e | Inr h2 \<Rightarrow> Inr (this, h2))"



section \<open>Solving in the kit\<close>

definition bindE :: "error + 'a \<Rightarrow> ('a \<Rightarrow> error + 'b) \<Rightarrow> error + 'b" where
  "bindE m f = (case m of Inl e \<Rightarrow> Inl e | Inr x \<Rightarrow> f x)"











section \<open>Constraint variables of values, varargs and locations (Infoflow)\<close>

text \<open>
  The state of the pass: the kit and the seven \<^verbatim>\<open>DenseMap\<close>s from values, functions and
  abstract locations to constraint elements.  The two context-sensitive maps are maps of
  maps; \<^verbatim>\<open>operator[]\<close> on the outer map yields an empty inner map for a new context.  A
  function is a value: the address of a function is the same in the value maps and in
  the varargs maps.
\<close>

record Infoflow =
  kit :: LHConstraintKit
  valueConstraintMap :: "nat \<Rightarrow> nat \<rightharpoonup> ConsElem"
  locConstraintMap :: "nat \<rightharpoonup> ConsElem"
  vargConstraintMap :: "nat \<Rightarrow> nat \<rightharpoonup> ConsElem"
  summarySinkValueConstraintMap :: "nat \<rightharpoonup> ConsElem"
  summarySourceValueConstraintMap :: "nat \<rightharpoonup> ConsElem"
  summarySinkVargConstraintMap :: "nat \<rightharpoonup> ConsElem"
  summarySourceVargConstraintMap :: "nat \<rightharpoonup> ConsElem"


text \<open>
  What the pass reads from the other analyses and from the command line: the points-to
  sets (each a \<^verbatim>\<open>std::set\<close> of locations, in the order of their addresses), the
  source/sink analysis, and the option \<^verbatim>\<open>deps-drop-sink-flows\<close>.
\<close>

record Analyses =
  locsForValue :: "nat \<Rightarrow> nat list"
  reachableLocsForValue :: "nat \<Rightarrow> nat list"
  valueIsSink :: "nat \<Rightarrow> bool"
  vargIsSink :: "nat \<Rightarrow> bool"
  directPtrIsSink :: "nat \<Rightarrow> bool"
  reachPtrIsSink :: "nat \<Rightarrow> bool"
  DepsDropAtSink :: bool

definition kindFromImplicitSink :: "bool \<Rightarrow> bool \<Rightarrow> string" where
  "kindFromImplicitSink imp sink =
     (if imp then (if sink then ''implicit-sinks'' else ''implicit'')
      else (if sink then ''default-sinks'' else ''default''))"

text \<open>\<^verbatim>\<open>kit->newVar\<close> and \<^verbatim>\<open>kit->addConstraint\<close> on the kit of the pass.\<close>

definition kit_newVar :: "Infoflow \<Rightarrow> ConsElem \<times> Infoflow" where
  "kit_newVar s = (let (elem, k) = newVar (kit s) in (elem, s\<lparr>kit := k\<rparr>))"

definition kit_addConstraint :: "string \<Rightarrow> ConsElem \<Rightarrow> ConsElem \<Rightarrow> Infoflow \<Rightarrow> error + Infoflow" where
  "kit_addConstraint kind lhs' rhs' s =
     bindE (addConstraint kind lhs' rhs' (kit s)) (\<lambda>k. Inr (s\<lparr>kit := k\<rparr>))"

definition getOrCreateConsElemSummarySource :: "nat \<Rightarrow> Infoflow \<Rightarrow> ConsElem \<times> Infoflow" where
  "getOrCreateConsElemSummarySource v s =
     (case summarySourceValueConstraintMap s v of
        None \<Rightarrow>
          let (elem, s1) = kit_newVar s
          in (elem, s1\<lparr>summarySourceValueConstraintMap :=
                          (summarySourceValueConstraintMap s1)(v \<mapsto> elem)\<rparr>)
      | Some elem \<Rightarrow> (elem, s))"


definition getOrCreateConsElemSummarySink :: "nat \<Rightarrow> Infoflow \<Rightarrow> ConsElem \<times> Infoflow" where
  "getOrCreateConsElemSummarySink v s =
     (case summarySinkValueConstraintMap s v of
        None \<Rightarrow>
          let (elem, s1) = kit_newVar s
          in (elem, s1\<lparr>summarySinkValueConstraintMap :=
                          (summarySinkValueConstraintMap s1)(v \<mapsto> elem)\<rparr>)
      | Some elem \<Rightarrow> (elem, s))"

definition putOrConstrainConsElemSummarySink ::
  "string \<Rightarrow> nat \<Rightarrow> ConsElem \<Rightarrow> Infoflow \<Rightarrow> error + Infoflow" where
  "putOrConstrainConsElemSummarySink kind v lub s =
     (let (current, s1) = getOrCreateConsElemSummarySink v s
      in kit_addConstraint kind lub current s1)"

text \<open>
  \<^verbatim>\<open>getOrCreateConsElem(ctxt, value)\<close>: a new variable of a value in a context is hooked
  up, by two constraints of kind \<^verbatim>\<open>default\<close>, above the summary source and below the
  summary sink of the value.
\<close>

definition getOrCreateConsElem :: "nat \<Rightarrow> nat \<Rightarrow> Infoflow \<Rightarrow> error + (ConsElem \<times> Infoflow)" where
  "getOrCreateConsElem ctxt v s =
     (case valueConstraintMap s ctxt v of
        None \<Rightarrow>
          let (elem, s1) = kit_newVar s;
              s2 = s1\<lparr>valueConstraintMap :=
                        (valueConstraintMap s1)(ctxt := (valueConstraintMap s1 ctxt)(v \<mapsto> elem))\<rparr>;
              (summarySource, s3) = getOrCreateConsElemSummarySource v s2
          in bindE (kit_addConstraint ''default'' summarySource elem s3) (\<lambda>s4.
             bindE (putOrConstrainConsElemSummarySink ''default'' v elem s4) (\<lambda>s5.
             Inr (elem, s5)))
      | Some elem \<Rightarrow> Inr (elem, s))"

definition putOrConstrainConsElem ::
  "bool \<Rightarrow> bool \<Rightarrow> nat \<Rightarrow> nat \<Rightarrow> ConsElem \<Rightarrow> Infoflow \<Rightarrow> error + Infoflow" where
  "putOrConstrainConsElem imp sink ctxt v lub s =
     bindE (getOrCreateConsElem ctxt v s) (\<lambda>(current, s1).
       kit_addConstraint (kindFromImplicitSink imp sink) lub current s1)"

definition getOrCreateVargConsElemSummarySource :: "nat \<Rightarrow> Infoflow \<Rightarrow> ConsElem \<times> Infoflow" where
  "getOrCreateVargConsElemSummarySource f s =
     (case summarySourceVargConstraintMap s f of
        None \<Rightarrow>
          let (elem, s1) = kit_newVar s
          in (elem, s1\<lparr>summarySourceVargConstraintMap :=
                          (summarySourceVargConstraintMap s1)(f \<mapsto> elem)\<rparr>)
      | Some elem \<Rightarrow> (elem, s))"

definition putOrConstrainVargConsElemSummarySource ::
  "string \<Rightarrow> nat \<Rightarrow> ConsElem \<Rightarrow> Infoflow \<Rightarrow> error + Infoflow" where
  "putOrConstrainVargConsElemSummarySource kind f lub s =
     (let (current, s1) = getOrCreateVargConsElemSummarySource f s
      in kit_addConstraint kind lub current s1)"

definition getOrCreateVargConsElemSummarySink :: "nat \<Rightarrow> Infoflow \<Rightarrow> ConsElem \<times> Infoflow" where
  "getOrCreateVargConsElemSummarySink f s =
     (case summarySinkVargConstraintMap s f of
        None \<Rightarrow>
          let (elem, s1) = kit_newVar s
          in (elem, s1\<lparr>summarySinkVargConstraintMap :=
                          (summarySinkVargConstraintMap s1)(f \<mapsto> elem)\<rparr>)
      | Some elem \<Rightarrow> (elem, s))"

definition putOrConstrainVargConsElemSummarySink ::
  "string \<Rightarrow> nat \<Rightarrow> ConsElem \<Rightarrow> Infoflow \<Rightarrow> error + Infoflow" where
  "putOrConstrainVargConsElemSummarySink kind f lub s =
     (let (current, s1) = getOrCreateVargConsElemSummarySink f s
      in kit_addConstraint kind lub current s1)"

text \<open>
  \<^verbatim>\<open>getOrCreateVargConsElem(ctxt, value)\<close>: the summary source that is put below the new
  variable is \<^verbatim>\<open>getOrCreateConsElemSummarySource(value)\<close>, the summary source of the
  function as a value; the summary sink is the one of the varargs.
\<close>

definition getOrCreateVargConsElem :: "nat \<Rightarrow> nat \<Rightarrow> Infoflow \<Rightarrow> error + (ConsElem \<times> Infoflow)" where
  "getOrCreateVargConsElem ctxt f s =
     (case vargConstraintMap s ctxt f of
        None \<Rightarrow>
          let (elem, s1) = kit_newVar s;
              s2 = s1\<lparr>vargConstraintMap :=
                        (vargConstraintMap s1)(ctxt := (vargConstraintMap s1 ctxt)(f \<mapsto> elem))\<rparr>;
              (summarySource, s3) = getOrCreateConsElemSummarySource f s2
          in bindE (kit_addConstraint ''default'' summarySource elem s3) (\<lambda>s4.
             bindE (putOrConstrainVargConsElemSummarySink ''default'' f elem s4) (\<lambda>s5.
             Inr (elem, s5)))
      | Some elem \<Rightarrow> Inr (elem, s))"

definition putOrConstrainVargConsElem ::
  "bool \<Rightarrow> bool \<Rightarrow> nat \<Rightarrow> nat \<Rightarrow> ConsElem \<Rightarrow> Infoflow \<Rightarrow> error + Infoflow" where
  "putOrConstrainVargConsElem imp sink ctxt f lub s =
     bindE (getOrCreateVargConsElem ctxt f s) (\<lambda>(current, s1).
       kit_addConstraint (kindFromImplicitSink imp sink) lub current s1)"

text \<open>The overloads on an abstract location.\<close>

definition getOrCreateConsElem_loc :: "nat \<Rightarrow> Infoflow \<Rightarrow> ConsElem \<times> Infoflow" where
  "getOrCreateConsElem_loc loc s =
     (case locConstraintMap s loc of
        None \<Rightarrow>
          let (elem, s1) = kit_newVar s
          in (elem, s1\<lparr>locConstraintMap := (locConstraintMap s1)(loc \<mapsto> elem)\<rparr>)
      | Some elem \<Rightarrow> (elem, s))"

definition putOrConstrainConsElem_loc ::
  "bool \<Rightarrow> bool \<Rightarrow> nat \<Rightarrow> ConsElem \<Rightarrow> Infoflow \<Rightarrow> error + Infoflow" where
  "putOrConstrainConsElem_loc imp sink loc lub s =
     (let (current, s1) = getOrCreateConsElem_loc loc s
      in kit_addConstraint (kindFromImplicitSink imp sink) lub current s1)"

subsection \<open>From a flow record to constraints\<close>

fun foldE :: "('a \<Rightarrow> 's \<Rightarrow> error + 's) \<Rightarrow> 'a list \<Rightarrow> 's \<Rightarrow> error + 's" where
  "foldE f [] s = Inr s"
| "foldE f (x # xs) s = bindE (f x s) (foldE f xs)"

text \<open>
  \<^verbatim>\<open>std::set<const ConsElem *>::insert\<close>, and the insertion of a range into a
  \<^verbatim>\<open>std::set<const AbstractLoc *>\<close>; both sets are kept in the order of the addresses.
\<close>

definition elemset_insert :: "ConsElem \<Rightarrow> ConsElem list \<Rightarrow> ConsElem list" where
  "elemset_insert e es = elemset (es @ [e])"

definition locset_insert_range :: "nat list \<Rightarrow> nat list \<Rightarrow> nat list" where
  "locset_insert_range locs acc = fold insort_insert locs acc"

text \<open>
  The first half of \<^verbatim>\<open>constrainFlowRecord\<close>: the elements of the value and varargs
  sources and of the locations of the pointer sources, in \<^verbatim>\<open>Sources\<close> or, for a source
  that is a sink when sink flows are dropped, in \<^verbatim>\<open>sinkSources\<close>.
\<close>

definition sourceValueElems ::
  "Analyses \<Rightarrow> FlowRecord \<Rightarrow> ConsElem list \<times> ConsElem list \<times> Infoflow
     \<Rightarrow> error + (ConsElem list \<times> ConsElem list \<times> Infoflow)" where
  "sourceValueElems A record =
     foldE (\<lambda>source (Sources, sinkSources, s).
              bindE (getOrCreateConsElem (sourceCtxt record) source s) (\<lambda>(e, s1).
                if \<not> DepsDropAtSink A \<or> \<not> valueIsSink A source
                then Inr (elemset_insert e Sources, sinkSources, s1)
                else Inr (Sources, elemset_insert e sinkSources, s1)))
           (valueSources record)"

definition sourceVargElems ::
  "Analyses \<Rightarrow> FlowRecord \<Rightarrow> ConsElem list \<times> ConsElem list \<times> Infoflow
     \<Rightarrow> error + (ConsElem list \<times> ConsElem list \<times> Infoflow)" where
  "sourceVargElems A record =
     foldE (\<lambda>source (Sources, sinkSources, s).
              bindE (getOrCreateVargConsElem (sourceCtxt record) source s) (\<lambda>(e, s1).
                if \<not> DepsDropAtSink A \<or> \<not> vargIsSink A source
                then Inr (elemset_insert e Sources, sinkSources, s1)
                else Inr (Sources, elemset_insert e sinkSources, s1)))
           (vargSources record)"

definition sourceLocs :: "Analyses \<Rightarrow> FlowRecord \<Rightarrow> nat list \<times> nat list" where
  "sourceLocs A record =
     (let st = fold (\<lambda>source (SourceLocs, sinkSourceLocs).
                  if \<not> DepsDropAtSink A \<or> \<not> directPtrIsSink A source
                  then (locset_insert_range (locsForValue A source) SourceLocs, sinkSourceLocs)
                  else (SourceLocs, locset_insert_range (locsForValue A source) sinkSourceLocs))
                (directPtrSources record) ([], [])
      in fold (\<lambda>source (SourceLocs, sinkSourceLocs).
                  if \<not> DepsDropAtSink A \<or> \<not> reachPtrIsSink A source
                  then (locset_insert_range (reachableLocsForValue A source) SourceLocs, sinkSourceLocs)
                  else (SourceLocs, locset_insert_range (reachableLocsForValue A source) sinkSourceLocs))
                (reachPtrSources record) st)"

definition locElems :: "nat list \<Rightarrow> ConsElem list \<times> Infoflow \<Rightarrow> ConsElem list \<times> Infoflow" where
  "locElems locs =
     fold (\<lambda>I (Sources, s). let (e, s1) = getOrCreateConsElem_loc I s
                             in (elemset_insert e Sources, s1)) locs"

text \<open>\<^verbatim>\<open>kit->upperBound(Sources)\<close> when the set is not empty; the pointer stays null otherwise.\<close>

definition joinOfSources :: "ConsElem list \<Rightarrow> Infoflow \<Rightarrow> ConsElem option \<times> Infoflow" where
  "joinOfSources Sources s =
     (if Sources \<noteq> []
      then let (j, k) = upperBound_set Sources (kit s) in (Some j, s\<lparr>kit := k\<rparr>)
      else (None, s))"

text \<open>
  The second half: every sink is constrained to be above the join of the sources.  The
  flags \<^verbatim>\<open>regFlow\<close> and \<^verbatim>\<open>sinkFlow\<close> of the source are true exactly when the pointers
  \<^verbatim>\<open>sourceElem\<close> and \<^verbatim>\<open>sinkSourceElem\<close> have been set.
\<close>

definition constrainValueSink ::
  "bool \<Rightarrow> nat \<Rightarrow> ConsElem option \<Rightarrow> ConsElem option \<Rightarrow> nat \<Rightarrow> Infoflow \<Rightarrow> error + Infoflow" where
  "constrainValueSink imp ctxt sourceElem sinkSourceElem sink s =
     bindE (case sourceElem of None \<Rightarrow> Inr s
            | Some e \<Rightarrow> putOrConstrainConsElem imp False ctxt sink e s) (\<lambda>s1.
       case sinkSourceElem of None \<Rightarrow> Inr s1
       | Some e \<Rightarrow> putOrConstrainConsElem imp True ctxt sink e s1)"

definition constrainVargSink ::
  "bool \<Rightarrow> nat \<Rightarrow> ConsElem option \<Rightarrow> ConsElem option \<Rightarrow> nat \<Rightarrow> Infoflow \<Rightarrow> error + Infoflow" where
  "constrainVargSink imp ctxt sourceElem sinkSourceElem sink s =
     bindE (case sourceElem of None \<Rightarrow> Inr s
            | Some e \<Rightarrow> putOrConstrainVargConsElem imp False ctxt sink e s) (\<lambda>s1.
       case sinkSourceElem of None \<Rightarrow> Inr s1
       | Some e \<Rightarrow> putOrConstrainVargConsElem imp True ctxt sink e s1)"

definition constrainLocSink ::
  "bool \<Rightarrow> ConsElem option \<Rightarrow> ConsElem option \<Rightarrow> nat \<Rightarrow> Infoflow \<Rightarrow> error + Infoflow" where
  "constrainLocSink imp sourceElem sinkSourceElem loc s =
     bindE (case sourceElem of None \<Rightarrow> Inr s
            | Some e \<Rightarrow> putOrConstrainConsElem_loc imp False loc e s) (\<lambda>s1.
       case sinkSourceElem of None \<Rightarrow> Inr s1
       | Some e \<Rightarrow> putOrConstrainConsElem_loc imp True loc e s1)"

definition sinkLocs :: "Analyses \<Rightarrow> FlowRecord \<Rightarrow> nat list" where
  "sinkLocs A record =
     fold (\<lambda>sink. locset_insert_range (reachableLocsForValue A sink)) (reachPtrSinks record)
       (fold (\<lambda>sink. locset_insert_range (locsForValue A sink)) (directPtrSinks record) [])"

definition constrainFlowRecord :: "Analyses \<Rightarrow> FlowRecord \<Rightarrow> Infoflow \<Rightarrow> error + Infoflow" where
  "constrainFlowRecord A record s =
     bindE (sourceValueElems A record ([], [], s)) (\<lambda>st1.
     bindE (sourceVargElems A record st1) (\<lambda>(Sources1, sinkSources1, s2).
       let (SourceLocs, sinkSourceLocs) = sourceLocs A record;
           (Sources, s3) = locElems SourceLocs (Sources1, s2);
           (sinkSources, s4) = locElems sinkSourceLocs (sinkSources1, s3);
           (sourceElem, s5) = joinOfSources Sources s4;
           (sinkSourceElem, s6) = joinOfSources sinkSources s5;
           imp = implicit record
       in bindE (foldE (constrainValueSink imp (sinkCtxt record) sourceElem sinkSourceElem)
                   (valueSinks record) s6) (\<lambda>s7.
          bindE (foldE (constrainVargSink imp (sinkCtxt record) sourceElem sinkSourceElem)
                   (vargSinks record) s7) (\<lambda>s8.
          foldE (constrainLocSink imp sourceElem sinkSourceElem) (sinkLocs A record) s8))))"

text \<open>\<^verbatim>\<open>generateFunctionConstraints\<close>: the flows of the blocks, then their constraints.\<close>

definition generateFunctionConstraints ::
  "Analyses \<Rightarrow> Env \<Rightarrow> Instruction list list \<Rightarrow> Infoflow \<Rightarrow> error + Infoflow" where
  "generateFunctionConstraints A env f s =
     bindE (generateFunctionFlows env f []) (\<lambda>flows. foldE (constrainFlowRecord A) flows s)"

subsection \<open>Declaring taint and asking for solutions\<close>



definition setVargUntainted :: "string \<Rightarrow> nat \<Rightarrow> Infoflow \<Rightarrow> error + Infoflow" where
  "setVargUntainted kind f s =
     (if kind = ''default'' then Inl ForbiddenKind
      else if kind = ''implicit'' then Inl ForbiddenKind
      else let (current, s1) = getOrCreateVargConsElemSummarySink f s
           in kit_addConstraint kind current lowConstant s1)"

definition setVargTainted :: "string \<Rightarrow> nat \<Rightarrow> Infoflow \<Rightarrow> error + Infoflow" where
  "setVargTainted kind f s =
     (if kind = ''default'' then Inl ForbiddenKind
      else if kind = ''implicit'' then Inl ForbiddenKind
      else putOrConstrainVargConsElemSummarySource kind f highConstant s)"

definition untaintLoc :: "string \<Rightarrow> nat \<Rightarrow> Infoflow \<Rightarrow> error + Infoflow" where
  "untaintLoc kind loc s =
     (let (current, s1) = getOrCreateConsElem_loc loc s
      in kit_addConstraint kind current lowConstant s1)"

definition taintLoc :: "string \<Rightarrow> nat \<Rightarrow> Infoflow \<Rightarrow> error + Infoflow" where
  "taintLoc kind loc s =
     (let (current, s1) = getOrCreateConsElem_loc loc s
      in kit_addConstraint kind highConstant current s1)"

definition setDirectPtrUntainted :: "Analyses \<Rightarrow> string \<Rightarrow> nat \<Rightarrow> Infoflow \<Rightarrow> error + Infoflow" where
  "setDirectPtrUntainted A kind v s =
     (if kind = ''default'' then Inl ForbiddenKind
      else if kind = ''implicit'' then Inl ForbiddenKind
      else foldE (untaintLoc kind) (locsForValue A v) s)"

definition setDirectPtrTainted :: "Analyses \<Rightarrow> string \<Rightarrow> nat \<Rightarrow> Infoflow \<Rightarrow> error + Infoflow" where
  "setDirectPtrTainted A kind v s =
     (if kind = ''default'' then Inl ForbiddenKind
      else if kind = ''implicit'' then Inl ForbiddenKind
      else foldE (taintLoc kind) (locsForValue A v) s)"

definition setReachPtrUntainted :: "Analyses \<Rightarrow> string \<Rightarrow> nat \<Rightarrow> Infoflow \<Rightarrow> error + Infoflow" where
  "setReachPtrUntainted A kind v s =
     (if kind = ''default'' then Inl ForbiddenKind
      else if kind = ''implicit'' then Inl ForbiddenKind
      else foldE (untaintLoc kind) (reachableLocsForValue A v) s)"

definition setReachPtrTainted :: "Analyses \<Rightarrow> string \<Rightarrow> nat \<Rightarrow> Infoflow \<Rightarrow> error + Infoflow" where
  "setReachPtrTainted A kind v s =
     (if kind = ''default'' then Inl ForbiddenKind
      else if kind = ''implicit'' then Inl ForbiddenKind
      else foldE (taintLoc kind) (reachableLocsForValue A v) s)"

text \<open>
  An \<^verbatim>\<open>InfoflowSolution\<close> holds the pointer to the kit's solution and references to
  three of the maps of the pass; a reference is the name of the map it refers to.
\<close>

datatype ValueMapRef = SummarySinkValueMap | SummarySourceValueMap

datatype VargMapRef = SummarySinkVargMap | SummarySourceVargMap

record InfoflowSolution =
  soln :: nat
  defaultTainted :: bool
  valueMap :: ValueMapRef
  vargMap :: VargMapRef


fun vargMap_of :: "VargMapRef \<Rightarrow> Infoflow \<Rightarrow> nat \<rightharpoonup> ConsElem" where
  "vargMap_of SummarySinkVargMap s = summarySinkVargConstraintMap s"
| "vargMap_of SummarySourceVargMap s = summarySourceVargConstraintMap s"




definition isVargTainted :: "InfoflowSolution \<Rightarrow> Infoflow \<Rightarrow> nat \<Rightarrow> bool" where
  "isVargTainted sol s f =
     (case vargMap_of (vargMap sol) s f of
        Some elem \<Rightarrow> LHConstant (PartialSolution_subst (objects (kit s)) (soln sol) elem) = highConstant
      | None \<Rightarrow> defaultTainted sol)"

section \<open>Notions used in the statements\<close>

text \<open>The constraint vector stored under a kind (empty when the kind has no entry).\<close>

definition stored_constraints :: "LHConstraintKit \<Rightarrow> string \<Rightarrow> LHConstraint list" where
  "stored_constraints k kind = (case constraints k kind of None \<Rightarrow> [] | Some cs \<Rightarrow> cs)"

text \<open>No stored constraint has a join on its right-hand side.\<close>

definition no_join_on_rhs :: "LHConstraintKit \<Rightarrow> bool" where
  "no_join_on_rhs k = (\<forall>kind. list_all (\<lambda>c. \<not> isa_LHJoin (rhs c)) (stored_constraints k kind))"

text \<open>The constraints that one call of \<^verbatim>\<open>addConstraint\<close> appends.\<close>

definition expand_lhs :: "ConsElem \<Rightarrow> ConsElem \<Rightarrow> LHConstraint list" where
  "expand_lhs l r = (case l of LHJoin elems \<Rightarrow> map (\<lambda>elem. LHConstraint elem r) elems | _ \<Rightarrow> [LHConstraint l r])"

text \<open>
  The sink region as the specification words it: every block reached from the
  terminator's successors through blocks that are not pruned, a block being pruned when
  the post-dominator test of the source holds for it.
\<close>

inductive_set spec_sink_region :: "Env \<Rightarrow> nat \<Rightarrow> nat list \<Rightarrow> nat set"
  for env :: Env and bb :: nat and succs :: "nat list" where
  region_first: "s \<in> set succs \<Longrightarrow> \<not> pdt_dominates env s bb \<Longrightarrow> s \<in> spec_sink_region env bb succs"
| region_step: "b \<in> spec_sink_region env bb succs \<Longrightarrow> s \<in> set (blockSuccessors env b) \<Longrightarrow>
         \<not> pdt_dominates env s bb \<Longrightarrow> s \<in> spec_sink_region env bb succs"

text \<open>
  A diamond with a two-block arm: block 0 branches to 1 and 3, 1 goes on to 2, and 2 and 3
  meet in 4.  Block 4 post-dominates every block, and 2 post-dominates 1.
\<close>

definition diamond_env :: Env where
  "diamond_env = \<lparr>blockSuccessors = (\<lambda>b. if b = 0 then [1, 3] else if b = 1 then [2]
                                        else if b = 2 then [4] else if b = 3 then [4] else []),
                  pdt_dominates = (\<lambda>a b. a = b \<or> a = 4 \<or> (a = 2 \<and> b = 1)),
                  getCurrentContext = 0,
                  callSiteFlows = (\<lambda>inst callees. [])\<rparr>"

definition diamond_branch :: Instruction where
  "diamond_branch = \<lparr>opcode = BranchInst, self = 10, getParent = 0, getFunction = 20,
                     operands = [11, 3, 1], getPointerOperand = 0, getValueOperand = 0,
                     getCompareOperand = 0, getNewValOperand = 0, getCondition = 11,
                     getCalledValue = 0, isConditional = True, successors = [1, 3],
                     intrinsic = None, getArgOperand = (\<lambda>i. 0)\<rparr>"

text \<open>
  The declarative reading of a constraint set, against which both solvers are measured.
  For the least solution a constraint forces the variables of its right side high once
  its left side contains the high constant or a forced variable; for the greatest
  solution it forces the variables of its left side low once its right side is the low
  constant or a forced variable.  \<open>forced\<close> is the set of variables that leave their
  default value; it depends on the set of constraints only.
\<close>

fun high_in :: "ConsElem \<Rightarrow> bool" where
  "high_in (LHConstant level) = (level = HIGH)"
| "high_in (LHConsVar v) = False"
| "high_in (LHJoin elems) = list_ex high_in elems"

definition From_side :: "bool \<Rightarrow> LHConstraint \<Rightarrow> ConsElem" where
  "From_side greatest c = (if greatest then rhs c else lhs c)"

definition To_side :: "bool \<Rightarrow> LHConstraint \<Rightarrow> ConsElem" where
  "To_side greatest c = (if greatest then lhs c else rhs c)"

definition seeded :: "bool \<Rightarrow> ConsElem \<Rightarrow> bool" where
  "seeded greatest e = (if greatest then e = LHConstant LOW else high_in e)"

inductive_set forced :: "bool \<Rightarrow> LHConstraint set \<Rightarrow> nat set"
  for greatest :: bool and cs :: "LHConstraint set" where
  forced_seed: "c \<in> cs \<Longrightarrow> seeded greatest (From_side greatest c) \<Longrightarrow>
                v \<in> variables (To_side greatest c) \<Longrightarrow> v \<in> forced greatest cs"
| forced_step: "c \<in> cs \<Longrightarrow> u \<in> variables (From_side greatest c) \<Longrightarrow> u \<in> forced greatest cs \<Longrightarrow>
                v \<in> variables (To_side greatest c) \<Longrightarrow> v \<in> forced greatest cs"

text \<open>A constraint set as the store holds it: no join on a right-hand side.\<close>

definition stored_form :: "LHConstraint list \<Rightarrow> bool" where
  "stored_form cs = list_all (\<lambda>c. \<not> isa_LHJoin (rhs c)) cs"

definition queue_ok :: "LHConsSoln \<Rightarrow> bool" where
  "queue_ok s \<longleftrightarrow> queueSet s = set (queue s) \<and> distinct (queue s)"

definition raise_all :: "vecmap \<Rightarrow> nat list \<Rightarrow> LHConsSoln \<Rightarrow> LHConsSoln" where
  "raise_all m vs s =
     fold (\<lambda>var s. if var \<in> changed s then s
                    else enqueueConstraints (vm_get m var) (s\<lparr>changed := insert var (changed s)\<rparr>))
       vs s"

definition index_map :: "LHConsSoln \<Rightarrow> vecmap" where
  "index_map s = (if dynClass s = GreatestSoln then invalidIfDecreased s else invalidIfIncreased s)"

definition premise :: "bool \<Rightarrow> nat set \<Rightarrow> ConsElem \<Rightarrow> bool" where
  "premise g S e \<longleftrightarrow> seeded g e \<or> variables e \<inter> S \<noteq> {}"

definition closed_under :: "bool \<Rightarrow> nat set \<Rightarrow> LHConstraint \<Rightarrow> bool" where
  "closed_under g S c \<longleftrightarrow> (premise g S (From_side g c) \<longrightarrow> variables (To_side g c) \<subseteq> S)"

definition solve_inv :: "cheap \<Rightarrow> nat list \<Rightarrow> LHConsSoln \<Rightarrow> bool" where
  "solve_inv deref ps s \<longleftrightarrow>
     changed s \<subseteq> forced (dynClass s = GreatestSoln) (deref ` set ps) \<and>
     (\<forall>p \<in> set ps. p \<notin> set (queue s) \<longrightarrow> closed_under (dynClass s = GreatestSoln) (changed s) (deref p)) \<and>
     queue_ok s \<and> set (queue s) \<subseteq> set ps \<and>
     (\<forall>v. set (vm_get (index_map s) v) =
            {p \<in> set ps. v \<in> variables (From_side (dynClass s = GreatestSoln) (deref p))})"

definition rhs_plain :: "cheap \<Rightarrow> nat list \<Rightarrow> bool" where
  "rhs_plain deref ps \<longleftrightarrow> stored_form (map deref ps)"

definition changed_in :: "nat list list \<Rightarrow> nat list \<Rightarrow> nat set" where
  "changed_in others own = set own \<union> (\<Union>vs \<in> set others. set vs)"

definition prop_edge :: "vecmap list \<Rightarrow> nat \<Rightarrow> nat \<Rightarrow> bool" where
  "prop_edge Ps u w \<longleftrightarrow> (\<exists>PM \<in> set Ps. w \<in> set (vm_get PM u))"

fun psubst :: "bool \<Rightarrow> nat set \<Rightarrow> ConsElem \<Rightarrow> LHLevel" where
  "psubst init S (LHConsVar V) = boolToLHC (init \<noteq> (V \<in> S))"
| "psubst init S (LHConstant l) = l"
| "psubst init S (LHJoin es) = fold (\<lambda>elem substVal. LHConstant_join substVal (psubst init S elem)) es LOW"

definition chain_changed :: "heap \<Rightarrow> nat \<Rightarrow> nat set" where
  "chain_changed h this = (\<Union>a \<in> set (Chained (h ! this)). set (VSet (h ! a)))"

definition init_inv :: "bool \<Rightarrow> LHConstraint set \<Rightarrow> LHConstraint set \<Rightarrow> nat \<Rightarrow> heap \<Rightarrow> bool" where
  "init_inv init C done this h \<longleftrightarrow>
     this < length h \<and> Chained (h ! this) = [this] \<and> initial (h ! this) = init \<and>
     set (VSet (h ! this)) \<subseteq> forced init C \<and>
     (\<forall>c \<in> done. seeded init (From_side init c) \<longrightarrow> variables (To_side init c) \<subseteq> set (VSet (h ! this))) \<and>
     (\<forall>u w. w \<in> set (vm_get (P (h ! this)) u) \<longleftrightarrow>
            (\<exists>c \<in> done. u \<in> variables (From_side init c) \<and> w \<in> variables (To_side init c)))"

definition empty_solution :: "bool \<Rightarrow> PartialSolution" where
  "empty_solution init = \<lparr>P = [], VSet = [], Chained = [], initial = init\<rparr>"

text \<open>
  Two constraint vectors used as instances.  In \<open>order_cheap\<close> the second constraint has a
  join on its right-hand side; \<open>chain_cheap\<close> is in stored form.
\<close>

definition order_cheap :: cheap where
  "order_cheap p = (if p = 0 then LHConstraint (LHConstant HIGH) (LHConsVar 1)
                    else LHConstraint (LHConstant HIGH) (LHJoin [LHConsVar 1, LHConsVar 2]))"

definition chain_cheap :: cheap where
  "chain_cheap p = (if p = 0 then LHConstraint (LHConstant HIGH) (LHConsVar 1)
                    else if p = 1 then LHConstraint (LHConsVar 1) (LHConsVar 2)
                    else LHConstraint (LHConsVar 3) (LHConstant LOW))"

text \<open>The variables of a constraint vector.\<close>

definition all_vars :: "cheap \<Rightarrow> nat list \<Rightarrow> nat set" where
  "all_vars deref ps = (\<Union>p \<in> set ps. cons_vars deref p)"

definition bound_inv :: "cheap \<Rightarrow> nat list \<Rightarrow> LHConsSoln \<Rightarrow> bool" where
  "bound_inv deref ps s \<longleftrightarrow> changed s \<subseteq> all_vars deref ps \<and> set (queue s) \<subseteq> set ps \<and>
     vm_range (invalidIfIncreased s) \<subseteq> set ps \<and> vm_range (invalidIfDecreased s) \<subseteq> set ps"







definition reflexive_cheap :: cheap where
  "reflexive_cheap p = LHConstraint (LHConsVar 1) (LHConsVar 1)"









section \<open>Verified properties\<close>

subsection \<open>The constraint store\<close>

lemma addConstraint_locked: "kind \<in> lockedConstraintKinds k \<Longrightarrow> addConstraint kind l r k = Inl AlreadyLocked"
  by (simp add: addConstraint_def)

lemma addConstraint_join_rhs:
  "kind \<notin> lockedConstraintKinds k \<Longrightarrow> isa_LHJoin r \<Longrightarrow> addConstraint kind l r k = Inl JoinOnRhs"
  by (simp add: addConstraint_def Let_def split: prod.splits)

lemma addConstraint_ok:
  assumes "kind \<notin> lockedConstraintKinds k" "\<not> isa_LHJoin r"
  shows "\<exists>k'. addConstraint kind l r k = Inr k' \<and>
           stored_constraints k' = (stored_constraints k)(kind := stored_constraints k kind @ expand_lhs l r) \<and>
           lockedConstraintKinds k' = lockedConstraintKinds k"
  using assms
  by (cases l) (auto simp: addConstraint_def Let_def getOrCreateConstraintSet_def stored_constraints_def
      expand_lhs_def fun_eq_iff split: prod.splits option.splits)

lemma expand_lhs_rhs: "c \<in> set (expand_lhs l r) \<Longrightarrow> rhs c = r"
  by (cases l) (auto simp: expand_lhs_def)

text \<open>
  C6.  \<^verbatim>\<open>addConstraint(kind, lhs, rhs)\<close> fails when the kind is locked; otherwise it
  fails when \<^verbatim>\<open>rhs\<close> is a join; otherwise it appends one constraint per member of a
  join \<^verbatim>\<open>lhs\<close> (as many as the join has members), each with the same \<^verbatim>\<open>rhs\<close>, or the
  single constraint, and leaves the other kinds alone.  Hence a store without a join on
  a right-hand side stays so.
\<close>

theorem addConstraint_contract:
  "(kind \<in> lockedConstraintKinds k \<longrightarrow> addConstraint kind l r k = Inl AlreadyLocked) \<and>
   (kind \<notin> lockedConstraintKinds k \<and> isa_LHJoin r \<longrightarrow> addConstraint kind l r k = Inl JoinOnRhs) \<and>
   (kind \<notin> lockedConstraintKinds k \<and> \<not> isa_LHJoin r \<longrightarrow>
      (\<exists>k'. addConstraint kind l r k = Inr k' \<and>
         stored_constraints k' kind =
           stored_constraints k kind @
             (case l of LHJoin S \<Rightarrow> map (\<lambda>m. LHConstraint m r) S | _ \<Rightarrow> [LHConstraint l r]) \<and>
         (\<forall>kind'. kind' \<noteq> kind \<longrightarrow> stored_constraints k' kind' = stored_constraints k kind') \<and>
         (\<forall>S. l = LHJoin S \<longrightarrow>
            length (stored_constraints k' kind) = length (stored_constraints k kind) + length S \<and>
            (distinct S \<longrightarrow> length (stored_constraints k' kind) = length (stored_constraints k kind) + card (set S))))) \<and>
   (\<forall>k'. no_join_on_rhs k \<and> addConstraint kind l r k = Inr k' \<longrightarrow> no_join_on_rhs k')"
proof (intro conjI impI allI)
  show "kind \<in> lockedConstraintKinds k \<Longrightarrow> addConstraint kind l r k = Inl AlreadyLocked"
    by (rule addConstraint_locked)
next
  assume "kind \<notin> lockedConstraintKinds k \<and> isa_LHJoin r"
  then show "addConstraint kind l r k = Inl JoinOnRhs" by (simp add: addConstraint_join_rhs)
next
  assume a: "kind \<notin> lockedConstraintKinds k \<and> \<not> isa_LHJoin r"
  then obtain k' where k': "addConstraint kind l r k = Inr k'"
    "stored_constraints k' = (stored_constraints k)(kind := stored_constraints k kind @ expand_lhs l r)"
    using addConstraint_ok[of kind k r l] by blast
  show "\<exists>k'. addConstraint kind l r k = Inr k' \<and>
         stored_constraints k' kind =
           stored_constraints k kind @
             (case l of LHJoin S \<Rightarrow> map (\<lambda>m. LHConstraint m r) S | _ \<Rightarrow> [LHConstraint l r]) \<and>
         (\<forall>kind'. kind' \<noteq> kind \<longrightarrow> stored_constraints k' kind' = stored_constraints k kind') \<and>
         (\<forall>S. l = LHJoin S \<longrightarrow>
            length (stored_constraints k' kind) = length (stored_constraints k kind) + length S \<and>
            (distinct S \<longrightarrow> length (stored_constraints k' kind) = length (stored_constraints k kind) + card (set S)))"
    using k' by (intro exI[of _ k']) (auto simp: expand_lhs_def distinct_card)
next
  fix k' assume a: "no_join_on_rhs k \<and> addConstraint kind l r k = Inr k'"
  then have nl: "kind \<notin> lockedConstraintKinds k" and nj: "\<not> isa_LHJoin r"
    by (auto simp: addConstraint_def Let_def split: if_splits prod.splits)
  from addConstraint_ok[OF nl nj, of l] a
  have st: "stored_constraints k' = (stored_constraints k)(kind := stored_constraints k kind @ expand_lhs l r)"
    by auto
  show "no_join_on_rhs k'"
    using a nj unfolding no_join_on_rhs_def st
    by (auto simp: list_all_iff dest: expand_lhs_rhs)
qed

subsection \<open>Lattice laws and interning\<close>

lemma find_append_Some: "find p xs = Some y \<Longrightarrow> find p (xs @ ys) = Some y"
  by (induction xs) auto

lemma index_of_append_Some: "index_of p xs = Some i \<Longrightarrow> index_of p (xs @ ys) = Some i"
  by (induction xs arbitrary: i) auto

lemma index_of_find: "index_of p xs = Some i \<Longrightarrow> i < length xs \<and> find p xs = Some (xs ! i)"
  by (induction xs arbitrary: i) (auto split: if_splits)

lemma find_index_of: "find p xs = Some y \<Longrightarrow> \<exists>i. index_of p xs = Some i"
  by (induction xs) (auto split: if_splits)

lemma find_snoc_None: "find p xs = None \<Longrightarrow> p y \<Longrightarrow> find p (xs @ [y]) = Some y"
  by (induction xs) (auto split: if_splits)

lemma joins_insert_prefix: "\<exists>ys. joins (snd (joins_insert es k)) = joins k @ ys"
  by (auto simp: joins_insert_def split: option.splits)

lemma joins_insert_found:
  "\<exists>j. find (\<lambda>j. set j = set es) (joins (snd (joins_insert es k))) = Some j \<and> fst (joins_insert es k) = LHJoin j"
proof (cases "find (\<lambda>j. set j = set es) (joins k)")
  case None
  then have "find (\<lambda>j. set j = set es) (joins k @ [es]) = Some es"
    by (simp add: find_snoc_None)
  with None show ?thesis by (simp add: joins_insert_def)
next
  case (Some j) then show ?thesis by (simp add: joins_insert_def)
qed

lemma fold_insert_prefix:
  "\<exists>ys. joins (fold (\<lambda>es k. snd (joins_insert es k)) others k) = joins k @ ys"
proof (induction others arbitrary: k)
  case Nil show ?case by simp
next
  case (Cons a others)
  from Cons[of "snd (joins_insert a k)"] joins_insert_prefix[of a k]
  show ?case by auto
qed

lemma joins_insert_again:
  assumes "find (\<lambda>j. set j = set es) (joins k) = Some j"
  shows "joins_insert es k = (LHJoin j, k)"
  using assms by (simp add: joins_insert_def)

lemma find_Some_set: "find p xs = Some y \<Longrightarrow> p y \<and> y \<in> set xs"
  by (induction xs) (auto split: if_splits)

lemma set_elemset [simp]: "set (elemset es) = set es"
  by (simp add: elemset_def)

lemma distinct_elemset [simp]: "distinct (elemset es)"
  by (simp add: elemset_def)

text \<open>
  Interning: the element returned for a member set is the join stored at some address
  of the kit, its members are the given ones, and a later request for the same member
  set, whatever joins were stored in between, returns the same element at the same
  address and changes nothing.
\<close>

lemma interning_stable:
  assumes eq: "set elems' = set elems"
  shows "let (e, k1) = joins_insert elems k;
             k2 = fold (\<lambda>es k. snd (joins_insert es k)) others k1;
             (e', k3) = joins_insert elems' k2
         in (\<exists>j i. e = LHJoin j \<and> set j = set elems \<and>
                   join_address elems k1 = Some i \<and> i < length (joins k1) \<and> joins k1 ! i = j \<and>
                   join_address elems' k3 = Some i \<and> i < length (joins k3) \<and> joins k3 ! i = j) \<and>
            e' = e \<and> k3 = k2"
proof -
  obtain e k1 where r1: "joins_insert elems k = (e, k1)" by (cases "joins_insert elems k")
  define k2 where "k2 = fold (\<lambda>es k. snd (joins_insert es k)) others k1"
  from joins_insert_found[of elems k] r1
  obtain j where j: "find (\<lambda>j. set j = set elems) (joins k1) = Some j" "e = LHJoin j" by auto
  have sj: "set j = set elems" using find_Some_set[OF j(1)] by simp
  obtain ys where ys: "joins k2 = joins k1 @ ys" using fold_insert_prefix[of others k1] k2_def by auto
  have f2: "find (\<lambda>j. set j = set elems') (joins k2) = Some j"
    using j(1) ys eq by (simp add: find_append_Some)
  then have r3: "joins_insert elems' k2 = (e, k2)" using j(2) by (simp add: joins_insert_again)
  obtain i where i: "index_of (\<lambda>j. set j = set elems) (joins k1) = Some i"
    using find_index_of[OF j(1)] by auto
  from index_of_find[OF i] j(1) have i1: "i < length (joins k1)" "joins k1 ! i = j" by auto
  have i2: "index_of (\<lambda>j. set j = set elems') (joins k2) = Some i"
    using i ys eq by (simp add: index_of_append_Some)
  have i3: "i < length (joins k2)" "joins k2 ! i = j" using i1 ys by (auto simp: nth_append)
  have "(\<exists>j i. e = LHJoin j \<and> set j = set elems \<and>
                   join_address elems k1 = Some i \<and> i < length (joins k1) \<and> joins k1 ! i = j \<and>
                   join_address elems' k2 = Some i \<and> i < length (joins k2) \<and> joins k2 ! i = j)"
    using j(2) sj i i1 i2 i3 by (simp add: join_address_def)
  then show ?thesis
    using r1 r3 by (simp add: Let_def k2_def)
qed

lemma LHJoin_create_comm: "set (LHJoin_create e1 e2) = set (LHJoin_create e2 e1)"
  by (auto simp: LHJoin_create_def)

lemma set_LHJoin_create: "set (LHJoin_create e1 e2) = set (join_members e1) \<union> set (join_members e2)"
  by (simp add: LHJoin_create_def)

text \<open>
  C8.  On constants, low is below high and high is not below low; the join of constants
  is commutative, associative and idempotent, and is the maximum.  The element that the
  kit returns for a member set is a join whose members are exactly the given ones, and
  it is the join object stored in the kit at some address.  Asking again for the join of
  the same member set, whatever joins were built in between and in whatever order the
  members are given, returns the same element, the stored join at the same address, and
  leaves the kit unchanged.  The binary \<^verbatim>\<open>upperBound\<close> returns the stored join of the
  members of its two arguments, and the same one with its arguments swapped.
\<close>

theorem lattice_laws_and_interning:
  "LHConstant_leq LOW (LHConstant HIGH) \<and> \<not> LHConstant_leq HIGH (LHConstant LOW) \<and>
   LHConstant_join a b = LHConstant_join b a \<and>
   LHConstant_join (LHConstant_join a b) c = LHConstant_join a (LHConstant_join b c) \<and>
   LHConstant_join a a = a \<and>
   LHConstant_join a b = (if a = HIGH \<or> b = HIGH then HIGH else LOW) \<and>
   (set elems' = set elems \<longrightarrow>
      (let (e, k1) = upperBound_set elems k;
           k2 = fold (\<lambda>es k. snd (upperBound_set es k)) others k1;
           (e', k3) = upperBound_set elems' k2
       in (\<exists>j i. e = LHJoin j \<and> set j = set elems \<and>
                 join_address elems k1 = Some i \<and> i < length (joins k1) \<and> joins k1 ! i = j \<and>
                 join_address elems' k3 = Some i \<and> i < length (joins k3) \<and> joins k3 ! i = j) \<and>
          e' = e \<and> k3 = k2)) \<and>
   (let (e, k1) = upperBound e1 e2 k; (e', k2) = upperBound e2 e1 k1
    in (\<exists>j i. e = LHJoin j \<and> set j = set (join_members e1) \<union> set (join_members e2) \<and>
              join_address j k1 = Some i \<and> i < length (joins k1) \<and> joins k1 ! i = j \<and>
              join_address j k2 = Some i \<and> joins k2 ! i = j) \<and>
       e' = e \<and> k2 = k1)"
proof -
  have lat: "LHConstant_leq LOW (LHConstant HIGH)" "\<not> LHConstant_leq HIGH (LHConstant LOW)"
    "LHConstant_join a b = LHConstant_join b a"
    "LHConstant_join (LHConstant_join a b) c = LHConstant_join a (LHConstant_join b c)"
    "LHConstant_join a a = a"
    "LHConstant_join a b = (if a = HIGH \<or> b = HIGH then HIGH else LOW)"
    by (cases a; cases b; cases c; simp add: LHConstant_join_def)+
  have i1: "set elems' = set elems \<longrightarrow>
      (let (e, k1) = upperBound_set elems k;
           k2 = fold (\<lambda>es k. snd (upperBound_set es k)) others k1;
           (e', k3) = upperBound_set elems' k2
       in (\<exists>j i. e = LHJoin j \<and> set j = set elems \<and>
                 join_address elems k1 = Some i \<and> i < length (joins k1) \<and> joins k1 ! i = j \<and>
                 join_address elems' k3 = Some i \<and> i < length (joins k3) \<and> joins k3 ! i = j) \<and>
          e' = e \<and> k3 = k2)"
  proof
    assume eq: "set elems' = set elems"
    have fo: "fold (\<lambda>es k. snd (upperBound_set es k)) others = fold (\<lambda>es k. snd (joins_insert es k)) (map elemset others)"
      by (simp add: fold_map comp_def upperBound_set_def)
    have "set (elemset elems') = set (elemset elems)" using eq by simp
    from interning_stable[OF this, of k "map elemset others"]
    show "let (e, k1) = upperBound_set elems k;
           k2 = fold (\<lambda>es k. snd (upperBound_set es k)) others k1;
           (e', k3) = upperBound_set elems' k2
       in (\<exists>j i. e = LHJoin j \<and> set j = set elems \<and>
                 join_address elems k1 = Some i \<and> i < length (joins k1) \<and> joins k1 ! i = j \<and>
                 join_address elems' k3 = Some i \<and> i < length (joins k3) \<and> joins k3 ! i = j) \<and>
          e' = e \<and> k3 = k2"
      unfolding upperBound_set_def[abs_def] fo[unfolded upperBound_set_def[abs_def]]
      by (simp add: join_address_def Let_def split: prod.splits)
  qed
  have i2: "let (e, k1) = upperBound e1 e2 k; (e', k2) = upperBound e2 e1 k1
    in (\<exists>j i. e = LHJoin j \<and> set j = set (join_members e1) \<union> set (join_members e2) \<and>
              join_address j k1 = Some i \<and> i < length (joins k1) \<and> joins k1 ! i = j \<and>
              join_address j k2 = Some i \<and> joins k2 ! i = j) \<and>
       e' = e \<and> k2 = k1"
  proof -
    obtain e k1 where r1: "joins_insert (LHJoin_create e1 e2) k = (e, k1)"
      by (cases "joins_insert (LHJoin_create e1 e2) k")
    obtain e' k2 where r2: "joins_insert (LHJoin_create e2 e1) k1 = (e', k2)"
      by (cases "joins_insert (LHJoin_create e2 e1) k1")
    from interning_stable[OF LHJoin_create_comm[of e2 e1], of k "[]"] r1 r2
    obtain j i where ji: "e = LHJoin j" "set j = set (LHJoin_create e1 e2)"
      "join_address (LHJoin_create e1 e2) k1 = Some i" "i < length (joins k1)" "joins k1 ! i = j"
      "e' = e" "k2 = k1"
      by (auto simp: Let_def)
    have "join_address j k1 = join_address (LHJoin_create e1 e2) k1"
      using ji(2) by (simp add: join_address_def)
    with ji have "(\<exists>j i. e = LHJoin j \<and> set j = set (join_members e1) \<union> set (join_members e2) \<and>
              join_address j k1 = Some i \<and> i < length (joins k1) \<and> joins k1 ! i = j \<and>
              join_address j k2 = Some i \<and> joins k2 ! i = j) \<and>
       e' = e \<and> k2 = k1" by (simp add: set_LHJoin_create)
    then show ?thesis
      using r1 r2 unfolding upperBound_def Let_def by auto
  qed
  show ?thesis using lat i1 i2 by blast
qed

subsection \<open>Instruction rules\<close>

lemma set_ptrset_insert [simp]: "set (ptrset_insert v xs) = insert v (set xs)"
  by (auto simp: ptrset_insert_def)

lemma ccs_loop_sinks:
  "set (valueSinks (ccs_loop env bb visited wq rec)) =
     set (valueSinks rec) \<union> {c \<in> set wq. \<not> pdt_dominates env c bb}"
  by (induction wq arbitrary: visited rec) (auto simp: addSinkValue_def Let_def)

lemma ccs_sinks:
  "set (valueSinks (constrainConditionalSuccessors env term rec)) =
     set (valueSinks rec) \<union> {s \<in> set (successors term). \<not> pdt_dominates env s (getParent term)}"
  by (simp add: constrainConditionalSuccessors_def ccs_loop_sinks)

text \<open>
  C1.  On the diamond, the conditional branch of block 0 gets the sinks 1 and 3 only:
  block 2, which is reached through the unpruned block 1 and is not pruned itself, is in
  the region that the specification describes and is no sink.
\<close>

theorem conditional_successors_only_immediate:
  "set (valueSinks (constrainConditionalSuccessors diamond_env diamond_branch
          (FlowRecord_new True 0 0))) = {1, 3} \<and>
   2 \<in> spec_sink_region diamond_env (getParent diamond_branch) (successors diamond_branch)"
proof
  show "set (valueSinks (constrainConditionalSuccessors diamond_env diamond_branch
          (FlowRecord_new True 0 0))) = {1, 3}"
    unfolding ccs_sinks by (auto simp: diamond_env_def diamond_branch_def FlowRecord_new_def)
  have 1: "1 \<in> spec_sink_region diamond_env 0 [1, 3]"
    by (rule spec_sink_region.region_first) (simp_all add: diamond_env_def)
  have "2 \<in> spec_sink_region diamond_env 0 [1, 3]"
    by (rule spec_sink_region.region_step[OF 1]) (simp_all add: diamond_env_def)
  then show "2 \<in> spec_sink_region diamond_env (getParent diamond_branch) (successors diamond_branch)"
    by (simp add: diamond_branch_def)
qed

text \<open>
  C2.  An unreachable instruction adds no flow record.  A fence instruction fails the
  assertion of \<^verbatim>\<open>constrainFenceInst\<close>, and so does the generation of flows for a function
  that contains one.
\<close>

theorem fence_is_rejected:
  "getInstructionFlowsInternal env (inst\<lparr>opcode := UnreachableInst\<rparr>) callees flows = Inr flows \<and>
   getInstructionFlowsInternal env (inst\<lparr>opcode := FenceInst\<rparr>) callees flows = Inl UnsupportedInstruction \<and>
   generateFunctionFlows env [[inst\<lparr>opcode := FenceInst\<rparr>]] [] = Inl UnsupportedInstruction"
  by (simp add: getInstructionFlowsInternal_def constrainFenceInst_def constraintUnreachableInst_def)

subsection \<open>The worklist solver computes the forced set\<close>

lemma fold_join_high: "fold (\<lambda>e acc. LHConstant_join acc (f e)) es HIGH = HIGH"
  by (induction es) (auto simp: LHConstant_join_def)

lemma fold_join_low_iff:
  "fold (\<lambda>e acc. LHConstant_join acc (f e)) es LOW = HIGH \<longleftrightarrow> (\<exists>e \<in> set es. f e = HIGH)"
proof (induction es)
  case Nil show ?case by simp
next
  case (Cons a es)
  show ?case
  proof (cases "f a")
    case LOW then show ?thesis using Cons by (simp add: LHConstant_join_def)
  next
    case HIGH
    have "LHConstant_join LOW HIGH = HIGH" by (simp add: LHConstant_join_def)
    with HIGH show ?thesis by (simp add: fold_join_high)
  qed
qed

lemma level_not_high [simp]: "(l \<noteq> HIGH) = (l = LOW)" by (cases l) auto

lemma level_not_low [simp]: "(l \<noteq> LOW) = (l = HIGH)" by (cases l) auto

lemma least_subst_high_iff:
  "LHConsSoln_subst_in LOW ch e = HIGH \<longleftrightarrow> high_in e \<or> variables e \<inter> ch \<noteq> {}"
proof (induction e)
  case (LHJoin es)
  have "LHConsSoln_subst_in LOW ch (LHJoin es) = HIGH \<longleftrightarrow> (\<exists>e \<in> set es. LHConsSoln_subst_in LOW ch e = HIGH)"
    by (simp add: fold_join_low_iff)
  also have "\<dots> \<longleftrightarrow> (\<exists>e \<in> set es. high_in e \<or> variables e \<inter> ch \<noteq> {})" using LHJoin by blast
  also have "\<dots> \<longleftrightarrow> high_in (LHJoin es) \<or> variables (LHJoin es) \<inter> ch \<noteq> {}"
    by (auto simp: list_ex_iff)
  finally show ?case .
qed auto

lemma greatest_subst_low:
  "LHConsSoln_subst_in HIGH ch e = LOW \<Longrightarrow> variables e \<subseteq> ch"
  by (cases e) (auto simp: fold_join_high split: if_splits)

lemma greatest_subst_nonjoin:
  "\<not> isa_LHJoin e \<Longrightarrow> LHConsSoln_subst_in HIGH ch e = LOW \<longleftrightarrow> e = LHConstant LOW \<or> variables e \<inter> ch \<noteq> {}"
  by (cases e) auto

lemma vm_get_vm_append: "vm_get (vm_append k ys m) k' = (if k' = k then vm_get m k @ ys else vm_get m k')"
proof (cases "k \<in> fst ` set m")
  case False
  then have "map_of m k = None" by (simp add: map_of_eq_None_iff)
  with False show ?thesis by (auto simp: vm_get_def vm_append_def split: option.splits)
next
  case True
  have "map_of (map (\<lambda>(k', xs). if k' = k then (k', xs @ ys) else (k', xs)) m) k' =
        (if k' = k then map_option (\<lambda>xs. xs @ ys) (map_of m k) else map_of m k')"
    by (induction m) auto
  with True show ?thesis
    by (auto simp: vm_get_def vm_append_def map_of_eq_None_iff split: option.splits)
qed

lemma vm_get_addInvalid:
  assumes "finite vs"
  shows "vm_get (addInvalid cons vs m) v = (if v \<in> vs then vm_get m v @ [cons] else vm_get m v)"
proof -
  have "distinct xs \<Longrightarrow> vm_get (fold (\<lambda>var m. vm_append var [cons] m) xs m) v =
        (if v \<in> set xs then vm_get m v @ [cons] else vm_get m v)" for xs
    by (induction xs arbitrary: m) (auto simp: vm_get_vm_append)
  from this[of "sorted_list_of_set vs"] assms show ?thesis
    by (simp add: addInvalid_def)
qed

lemma vm_get_index:
  "vm_get (fold (\<lambda>cons m. addInvalid cons (variables (f cons)) m) cs m) v =
     vm_get m v @ filter (\<lambda>cons. v \<in> variables (f cons)) cs"
  by (induction cs arbitrary: m) (auto simp: vm_get_addInvalid finite_variables)

lemma enqueue_queue_ok:
  assumes "queue_ok s"
  shows "queue_ok (enqueueConstraints cs s) \<and>
         set (queue (enqueueConstraints cs s)) = set (queue s) \<union> set cs"
  using assms unfolding enqueueConstraints_def
proof (induction cs arbitrary: s)
  case Nil then show ?case by simp
next
  case (Cons a cs)
  let ?s1 = "if a \<in> queueSet s then s else s\<lparr>queueSet := insert a (queueSet s), queue := queue s @ [a]\<rparr>"
  have ok1: "queue_ok ?s1" using Cons.prems by (auto simp: queue_ok_def)
  have q1: "set (queue ?s1) = insert a (set (queue s))" using Cons.prems by (auto simp: queue_ok_def)
  from Cons.IH[OF ok1] q1 show ?case by auto
qed

lemma raise_all_props:
  assumes "queue_ok s"
  shows "queue_ok (raise_all m vs s) \<and>
         changed (raise_all m vs s) = changed s \<union> set vs \<and>
         set (queue (raise_all m vs s)) = set (queue s) \<union> (\<Union>v \<in> set vs - changed s. set (vm_get m v)) \<and>
         dynClass (raise_all m vs s) = dynClass s \<and>
         invalidIfIncreased (raise_all m vs s) = invalidIfIncreased s \<and>
         invalidIfDecreased (raise_all m vs s) = invalidIfDecreased s"
  using assms
proof (induction vs arbitrary: s)
  case Nil then show ?case by (simp add: raise_all_def)
next
  case (Cons v vs)
  let ?s1 = "if v \<in> changed s then s
             else enqueueConstraints (vm_get m v) (s\<lparr>changed := insert v (changed s)\<rparr>)"
  have r: "raise_all m (v # vs) s = raise_all m vs ?s1" by (simp add: raise_all_def)
  have ok0: "queue_ok (s\<lparr>changed := insert v (changed s)\<rparr>)" using Cons.prems by (simp add: queue_ok_def)
  have ok1: "queue_ok ?s1" using Cons.prems enqueue_queue_ok[OF ok0] by auto
  have ch1: "changed ?s1 = insert v (changed s)" by auto
  have q1: "set (queue ?s1) = set (queue s) \<union> (if v \<in> changed s then {} else set (vm_get m v))"
    using enqueue_queue_ok[OF ok0, of "vm_get m v"] by auto
  have f1: "dynClass ?s1 = dynClass s" "invalidIfIncreased ?s1 = invalidIfIncreased s"
    "invalidIfDecreased ?s1 = invalidIfDecreased s" by auto
  from Cons.IH[OF ok1] have ih: "queue_ok (raise_all m vs ?s1)"
    "changed (raise_all m vs ?s1) = changed ?s1 \<union> set vs"
    "set (queue (raise_all m vs ?s1)) = set (queue ?s1) \<union> (\<Union>v \<in> set vs - changed ?s1. set (vm_get m v))"
    "dynClass (raise_all m vs ?s1) = dynClass ?s1"
    "invalidIfIncreased (raise_all m vs ?s1) = invalidIfIncreased ?s1"
    "invalidIfDecreased (raise_all m vs ?s1) = invalidIfDecreased ?s1" by auto
  have "set (queue (raise_all m vs ?s1)) =
        set (queue s) \<union> (\<Union>v \<in> set (v # vs) - changed s. set (vm_get m v))"
    unfolding ih(3) q1 ch1 by auto
  then show ?case unfolding r using ih f1 ch1 by auto
qed

lemma satisfyLeast_raise:
  assumes "dynClass s = LeastSoln" "subst_now s left = HIGH"
  shows "satisfyLeast s left right =
           raise_all (invalidIfIncreased s) (sorted_list_of_set (variables right)) s"
proof -
  have "dynClass s' = LeastSoln \<Longrightarrow> invalidIfIncreased s' = m \<Longrightarrow>
        fold (\<lambda>var s. let R = subst_now s (LHConsVar var) in
                if \<not> LHConstant_leq HIGH (LHConstant R)
                then enqueueConstraints (vm_get (invalidIfIncreased s) var) (s\<lparr>changed := insert var (changed s)\<rparr>)
                else s) vs s' = raise_all m vs s'" for vs s' m
  proof (induction vs arbitrary: s')
    case Nil show ?case by (simp add: raise_all_def)
  next
    case (Cons v vs)
    let ?s1 = "if v \<in> changed s' then s'
             else enqueueConstraints (vm_get m v) (s'\<lparr>changed := insert v (changed s')\<rparr>)"
    have p: "dynClass ?s1 = LeastSoln" "invalidIfIncreased ?s1 = m" using Cons.prems by auto
    have st: "(let R = subst_now s' (LHConsVar v) in
                if \<not> LHConstant_leq HIGH (LHConstant R)
                then enqueueConstraints (vm_get (invalidIfIncreased s') v) (s'\<lparr>changed := insert v (changed s')\<rparr>)
                else s') = ?s1"
      using Cons.prems by (auto simp: subst_now_def defaultValue_def)
    show ?case using Cons.IH[OF p] st by (simp add: raise_all_def)
  qed
  from this[OF assms(1) refl] assms(2) show ?thesis by (simp add: satisfyLeast_def)
qed

lemma satisfyGreatest_raise:
  assumes "dynClass s = GreatestSoln" "subst_now s right = LOW"
  shows "satisfyGreatest s left right =
           raise_all (invalidIfDecreased s) (sorted_list_of_set (variables left)) s"
proof -
  have "dynClass s' = GreatestSoln \<Longrightarrow> invalidIfDecreased s' = m \<Longrightarrow>
        fold (\<lambda>var s. let L = subst_now s (LHConsVar var) in
                if LHConstant_leq L (LHConstant LOW) then s
                else if LHConstant_leq LOW (LHConstant L)
                then enqueueConstraints (vm_get (invalidIfDecreased s) var) (s\<lparr>changed := insert var (changed s)\<rparr>)
                else s) vs s' = raise_all m vs s'" for vs s' m
  proof (induction vs arbitrary: s')
    case Nil show ?case by (simp add: raise_all_def)
  next
    case (Cons v vs)
    let ?s1 = "if v \<in> changed s' then s'
             else enqueueConstraints (vm_get m v) (s'\<lparr>changed := insert v (changed s')\<rparr>)"
    have p: "dynClass ?s1 = GreatestSoln" "invalidIfDecreased ?s1 = m" using Cons.prems by auto
    have st: "(let L = subst_now s' (LHConsVar v) in
                if LHConstant_leq L (LHConstant LOW) then s'
                else if LHConstant_leq LOW (LHConstant L)
                then enqueueConstraints (vm_get (invalidIfDecreased s') v) (s'\<lparr>changed := insert v (changed s')\<rparr>)
                else s') = ?s1"
      using Cons.prems by (auto simp: subst_now_def defaultValue_def)
    show ?case using Cons.IH[OF p] st by (simp add: raise_all_def)
  qed
  from this[OF assms(1) refl] assms(2) show ?thesis by (simp add: satisfyGreatest_def)
qed

lemma premise_forced:
  assumes "S \<subseteq> forced g cs" "c \<in> cs" "premise g S (From_side g c)"
  shows "variables (To_side g c) \<subseteq> forced g cs"
proof
  fix v assume v: "v \<in> variables (To_side g c)"
  from assms(3) show "v \<in> forced g cs" unfolding premise_def
  proof
    assume "seeded g (From_side g c)"
    then show ?thesis using forced.forced_seed[OF assms(2) _ v] by simp
  next
    assume "variables (From_side g c) \<inter> S \<noteq> {}"
    then obtain u where "u \<in> variables (From_side g c)" "u \<in> forced g cs" using assms(1) by auto
    then show ?thesis using assms(2) v by (meson forced.forced_step)
  qed
qed

lemma index_map_cong:
  "dynClass a = dynClass b \<Longrightarrow> invalidIfIncreased a = invalidIfIncreased b \<Longrightarrow>
   invalidIfDecreased a = invalidIfDecreased b \<Longrightarrow> index_map a = index_map b"
  by (simp add: index_map_def)

lemma dequeue_fields:
  "changed (dequeueConstraint s) = changed s" "dynClass (dequeueConstraint s) = dynClass s"
  "index_map (dequeueConstraint s) = index_map s" "queue (dequeueConstraint s) = tl (queue s)"
  "invalidIfIncreased (dequeueConstraint s) = invalidIfIncreased s"
  "invalidIfDecreased (dequeueConstraint s) = invalidIfDecreased s"
  by (simp_all add: dequeueConstraint_def index_map_def)

lemma dequeue_queue_ok: "queue_ok s \<Longrightarrow> queue s = p # q \<Longrightarrow> queue_ok (dequeueConstraint s)"
  by (auto simp: queue_ok_def dequeueConstraint_def)

lemma inv_skip:
  assumes inv: "solve_inv deref ps s" and q: "queue s = p # q"
    and cl: "closed_under (dynClass s = GreatestSoln) (changed s) (deref p)"
  shows "solve_inv deref ps (dequeueConstraint s)"
proof -
  have "\<forall>p' \<in> set ps. p' \<notin> set q \<longrightarrow> closed_under (dynClass s = GreatestSoln) (changed s) (deref p')"
    using inv cl q unfolding solve_inv_def by auto
  moreover have "queue_ok (dequeueConstraint s)" using inv q dequeue_queue_ok unfolding solve_inv_def by blast
  ultimately show ?thesis using inv q unfolding solve_inv_def by (auto simp: dequeue_fields)
qed

lemma inv_raise:
  assumes inv: "solve_inv deref ps s" and q: "queue s = p # q"
    and pr: "premise (dynClass s = GreatestSoln) (changed s) (From_side (dynClass s = GreatestSoln) (deref p))"
  shows "solve_inv deref ps
           (raise_all (index_map s)
              (sorted_list_of_set (variables (To_side (dynClass s = GreatestSoln) (deref p))))
              (dequeueConstraint s))"
proof -
  let ?g = "dynClass s = GreatestSoln"
  let ?d = "dequeueConstraint s"
  let ?T = "variables (To_side ?g (deref p))"
  let ?r = "raise_all (index_map s) (sorted_list_of_set ?T) ?d"
  have pin: "p \<in> set ps" using inv q unfolding solve_inv_def by auto
  have okd: "queue_ok ?d" using inv q dequeue_queue_ok unfolding solve_inv_def by blast
  have fin: "set (sorted_list_of_set ?T) = ?T" by (simp add: finite_variables)
  note rp = raise_all_props[OF okd, of "index_map s" "sorted_list_of_set ?T", unfolded fin dequeue_fields]
  have tlq: "tl (queue s) = q" using q by simp
  have r: "queue_ok ?r" "changed ?r = changed s \<union> ?T"
    "set (queue ?r) = set q \<union> (\<Union>v \<in> ?T - changed s. set (vm_get (index_map s) v))"
    "dynClass ?r = dynClass s" "invalidIfIncreased ?r = invalidIfIncreased s"
    "invalidIfDecreased ?r = invalidIfDecreased s"
    using rp unfolding tlq by blast+
  have im: "index_map ?r = index_map s" by (rule index_map_cong[OF r(4) r(5) r(6)])
  have idx: "\<And>v. set (vm_get (index_map s) v) = {p \<in> set ps. v \<in> variables (From_side ?g (deref p))}"
    using inv unfolding solve_inv_def by blast
  have sound: "changed ?r \<subseteq> forced ?g (deref ` set ps)"
  proof -
    have "changed s \<subseteq> forced ?g (deref ` set ps)" using inv unfolding solve_inv_def by blast
    moreover from premise_forced[OF this _ pr] pin have "?T \<subseteq> forced ?g (deref ` set ps)" by blast
    ultimately show ?thesis using r(2) by auto
  qed
  have qsub: "set (queue ?r) \<subseteq> set ps"
    using inv q unfolding solve_inv_def r(3) idx by auto
  have closed: "\<forall>p' \<in> set ps. p' \<notin> set (queue ?r) \<longrightarrow> closed_under ?g (changed ?r) (deref p')"
  proof (intro ballI impI)
    fix p' assume p': "p' \<in> set ps" "p' \<notin> set (queue ?r)"
    show "closed_under ?g (changed ?r) (deref p')"
    proof (cases "p' = p")
      case True then show ?thesis unfolding closed_under_def r(2) by auto
    next
      case False
      then have nq: "p' \<notin> set (queue s)" using p'(2) q r(3) by auto
      then have old: "closed_under ?g (changed s) (deref p')" using inv p'(1) unfolding solve_inv_def by blast
      have nonew: "variables (From_side ?g (deref p')) \<inter> (?T - changed s) = {}"
      proof (rule ccontr)
        assume "\<not> ?thesis"
        then obtain v where v: "v \<in> variables (From_side ?g (deref p'))" "v \<in> ?T - changed s" by auto
        then have "p' \<in> set (vm_get (index_map s) v)" using idx p'(1) by auto
        then have "p' \<in> set (queue ?r)" using r(3) v(2) by blast
        with p'(2) show False by simp
      qed
      show ?thesis unfolding closed_under_def
      proof
        assume "premise ?g (changed ?r) (From_side ?g (deref p'))"
        then have "premise ?g (changed s) (From_side ?g (deref p'))"
          using nonew unfolding premise_def r(2) by auto
        then have "variables (To_side ?g (deref p')) \<subseteq> changed s" using old unfolding closed_under_def by simp
        then show "variables (To_side ?g (deref p')) \<subseteq> changed ?r" using r(2) by auto
      qed
    qed
  qed
  show ?thesis unfolding solve_inv_def r(4) im using sound closed r(1) qsub idx by auto
qed

lemma rhs_plainD: "rhs_plain deref ps \<Longrightarrow> p \<in> set ps \<Longrightarrow> \<not> isa_LHJoin (rhs (deref p))"
  by (auto simp: rhs_plain_def stored_form_def list_all_iff)

lemma level_leq_simps [simp]:
  "LHConstant_leq a (LHConstant b) \<longleftrightarrow> a = LOW \<or> b = HIGH"
  by simp

lemma closed_under_least:
  "closed_under False S c \<longleftrightarrow>
     (high_in (lhs c) \<or> variables (lhs c) \<inter> S \<noteq> {} \<longrightarrow> variables (rhs c) \<subseteq> S)"
  by (simp add: closed_under_def premise_def seeded_def From_side_def To_side_def)

lemma closed_under_greatest:
  "closed_under True S c \<longleftrightarrow>
     (rhs c = LHConstant LOW \<or> variables (rhs c) \<inter> S \<noteq> {} \<longrightarrow> variables (lhs c) \<subseteq> S)"
  by (simp add: closed_under_def premise_def seeded_def From_side_def To_side_def)

lemma solve_step_inv:
  assumes inv: "solve_inv deref ps s" and ne: "queue s \<noteq> []" and wf: "rhs_plain deref ps"
  shows "solve_inv deref ps (solve_step deref s)"
proof -
  obtain p q where q: "queue s = p # q" using ne by (cases "queue s") auto
  have pin: "p \<in> set ps" using inv q unfolding solve_inv_def by auto
  have nj: "\<not> isa_LHJoin (rhs (deref p))" by (rule rhs_plainD[OF wf pin])
  let ?d = "dequeueConstraint s"
  let ?l = "lhs (deref p)" and ?r = "rhs (deref p)"
  have hd: "hd (queue s) = p" using q by simp
  show ?thesis
  proof (cases "dynClass s")
    case LeastSoln
    then have g: "(dynClass s = GreatestSoln) = False" by simp
    have sub: "subst_now ?d e = LHConsSoln_subst_in LOW (changed s) e" for e
      using LeastSoln by (simp add: subst_now_def defaultValue_def dequeue_fields)
    have im: "index_map s = invalidIfIncreased ?d" using LeastSoln by (simp add: index_map_def dequeue_fields)
    show ?thesis
    proof (cases "LHConstant_leq (subst_now ?d ?l) (LHConstant (subst_now ?d ?r))")
      case True
      have "closed_under False (changed s) (deref p)"
        unfolding closed_under_least
      proof (intro impI)
        assume "high_in ?l \<or> variables ?l \<inter> changed s \<noteq> {}"
        then have "subst_now ?d ?l = HIGH" unfolding sub least_subst_high_iff .
        with True have "subst_now ?d ?r = HIGH" by simp
        then show "variables ?r \<subseteq> changed s" using nj unfolding sub
          by (cases ?r) (auto split: if_splits)
      qed
      from inv_skip[OF inv q] this g have "solve_inv deref ps ?d" by simp
      with True show ?thesis by (simp add: solve_step_def Let_def hd)
    next
      case False
      then have lh: "subst_now ?d ?l = HIGH" by simp
      then have "premise False (changed s) (From_side False (deref p))"
        unfolding sub least_subst_high_iff premise_def seeded_def From_side_def by simp
      from inv_raise[OF inv q] this g
      have "solve_inv deref ps (raise_all (index_map s) (sorted_list_of_set (variables ?r)) ?d)"
        by (simp add: To_side_def)
      moreover have "satisfyConstraint ?d ?l ?r = raise_all (index_map s) (sorted_list_of_set (variables ?r)) ?d"
        unfolding im using satisfyLeast_raise[of ?d ?l ?r] lh LeastSoln
        by (simp add: satisfyConstraint_def dequeue_fields)
      ultimately show ?thesis using False by (simp add: solve_step_def Let_def hd)
    qed
  next
    case GreatestSoln
    then have g: "(dynClass s = GreatestSoln) = True" by simp
    have sub: "subst_now ?d e = LHConsSoln_subst_in HIGH (changed s) e" for e
      using GreatestSoln by (simp add: subst_now_def defaultValue_def dequeue_fields)
    have im: "index_map s = invalidIfDecreased ?d" using GreatestSoln by (simp add: index_map_def dequeue_fields)
    have rlow: "subst_now ?d ?r = LOW \<longleftrightarrow> ?r = LHConstant LOW \<or> variables ?r \<inter> changed s \<noteq> {}"
      unfolding sub by (rule greatest_subst_nonjoin[OF nj])
    show ?thesis
    proof (cases "LHConstant_leq (subst_now ?d ?l) (LHConstant (subst_now ?d ?r))")
      case True
      have "closed_under True (changed s) (deref p)"
        unfolding closed_under_greatest
      proof (intro impI)
        assume "?r = LHConstant LOW \<or> variables ?r \<inter> changed s \<noteq> {}"
        then have "subst_now ?d ?r = LOW" using rlow by simp
        with True have "subst_now ?d ?l = LOW" by simp
        then show "variables ?l \<subseteq> changed s" unfolding sub by (rule greatest_subst_low)
      qed
      from inv_skip[OF inv q] this g have "solve_inv deref ps ?d" by simp
      with True show ?thesis by (simp add: solve_step_def Let_def hd)
    next
      case False
      then have rl: "subst_now ?d ?r = LOW" by simp
      then have "premise True (changed s) (From_side True (deref p))"
        using rlow unfolding premise_def seeded_def From_side_def by simp
      from inv_raise[OF inv q] this g
      have "solve_inv deref ps (raise_all (index_map s) (sorted_list_of_set (variables ?l)) ?d)"
        by (simp add: To_side_def)
      moreover have "satisfyConstraint ?d ?l ?r = raise_all (index_map s) (sorted_list_of_set (variables ?l)) ?d"
        unfolding im using satisfyGreatest_raise[of ?d ?r ?l] rl GreatestSoln
        by (simp add: satisfyConstraint_def dequeue_fields)
      ultimately show ?thesis using False by (simp add: solve_step_def Let_def hd)
    qed
  qed
qed

lemma solve_step_class: "queue s \<noteq> [] \<Longrightarrow> dynClass (solve_step deref s) = dynClass s"
  using solve_step_rel[of s deref] by (simp add: step_rel_def dequeueConstraint_def)

lemma solve_loop_inv:
  assumes "solve_inv deref ps s" "rhs_plain deref ps"
  shows "solve_inv deref ps (solve_loop deref s) \<and> queue (solve_loop deref s) = [] \<and>
         dynClass (solve_loop deref s) = dynClass s"
  using assms
proof (induction deref s rule: solve_loop.induct)
  case (1 deref s)
  show ?case
  proof (cases "queue s = []")
    case True
    then have "solve_loop deref s = s" by (subst solve_loop.simps) simp
    with True 1 show ?thesis by simp
  next
    case False
    then have e: "solve_loop deref s = solve_loop deref (solve_step deref s)"
      by (subst solve_loop.simps) simp
    from solve_step_inv[OF "1.prems"(1) False "1.prems"(2)]
    have "solve_inv deref ps (solve_step deref s)" .
    from "1.IH"[OF False this "1.prems"(2)] False solve_step_class[OF False, of deref]
    show ?thesis unfolding e by simp
  qed
qed

lemma inv_final:
  assumes inv: "solve_inv deref ps s" and e: "queue s = []"
  shows "changed s = forced (dynClass s = GreatestSoln) (deref ` set ps)"
proof
  show "changed s \<subseteq> forced (dynClass s = GreatestSoln) (deref ` set ps)"
    using inv unfolding solve_inv_def by blast
  have cl: "\<And>p. p \<in> set ps \<Longrightarrow> closed_under (dynClass s = GreatestSoln) (changed s) (deref p)"
    using inv e unfolding solve_inv_def by simp
  show "forced (dynClass s = GreatestSoln) (deref ` set ps) \<subseteq> changed s"
  proof
    fix v assume "v \<in> forced (dynClass s = GreatestSoln) (deref ` set ps)"
    then show "v \<in> changed s"
    proof (induction rule: forced.induct)
      case (forced_seed c v)
      then obtain p where "p \<in> set ps" "c = deref p" by auto
      with cl[of p] forced_seed show ?case unfolding closed_under_def premise_def by auto
    next
      case (forced_step c u v)
      then obtain p where "p \<in> set ps" "c = deref p" by auto
      with cl[of p] forced_step show ?case unfolding closed_under_def premise_def by auto
    qed
  qed
qed

lemma enqueue_all_inv:
  assumes idx: "\<forall>v. set (vm_get (index_map s) v) =
            {p \<in> set ps. v \<in> variables (From_side (dynClass s = GreatestSoln) (deref p))}"
    and s: "queue s = []" "queueSet s = {}" "changed s = {}"
  shows "solve_inv deref ps (enqueueConstraints ps s)"
proof -
  have ok: "queue_ok s" using s by (simp add: queue_ok_def)
  from enqueue_queue_ok[OF ok, of ps] s
  have "queue_ok (enqueueConstraints ps s)" "set (queue (enqueueConstraints ps s)) = set ps" by auto
  moreover have "index_map (enqueueConstraints ps s) = index_map s" by (simp add: index_map_def)
  ultimately show ?thesis unfolding solve_inv_def using idx s by simp
qed

lemma vm_get_Nil [simp]: "vm_get [] v = []"
  by (simp add: vm_get_def)

lemma least_ctor_index:
  "set (vm_get (index_map (LHConsLeastSoln deref ps)) v) = {p \<in> set ps. v \<in> variables (lhs (deref p))}"
  by (simp add: index_map_def LHConsLeastSoln_def vm_get_index)

lemma greatest_ctor_index:
  "set (vm_get (index_map (LHConsGreatestSoln deref ps)) v) = {p \<in> set ps. v \<in> variables (rhs (deref p))}"
  by (simp add: index_map_def LHConsGreatestSoln_def vm_get_index)

lemma solve_least_changed:
  assumes "rhs_plain deref ps"
  shows "changed (solve deref (LHConsLeastSoln deref ps)) = forced False (deref ` set ps)"
    and "dynClass (solve deref (LHConsLeastSoln deref ps)) = LeastSoln"
proof -
  let ?s0 = "LHConsLeastSoln deref ps"
  let ?s1 = "enqueueConstraints ps (?s0\<lparr>solved := True\<rparr>)"
  have c: "dynClass (?s0\<lparr>solved := True\<rparr>) = LeastSoln" by (simp add: LHConsLeastSoln_def)
  have im: "index_map (?s0\<lparr>solved := True\<rparr>) = index_map ?s0" by (simp add: index_map_def)
  have "solve_inv deref ps ?s1"
    by (rule enqueue_all_inv) (simp_all add: im c least_ctor_index From_side_def, simp_all add: LHConsLeastSoln_def)
  from solve_loop_inv[OF this assms]
  have l: "solve_inv deref ps (solve_loop deref ?s1)" "queue (solve_loop deref ?s1) = []"
    "dynClass (solve_loop deref ?s1) = LeastSoln" using c by simp_all
  have sv: "solve deref ?s0 = (solve_loop deref ?s1)\<lparr>soln_constraints := [], invalidIfIncreased := [], invalidIfDecreased := []\<rparr>"
    by (simp add: solve_def Let_def LHConsLeastSoln_def)
  from inv_final[OF l(1) l(2)] l(3) show "changed (solve deref ?s0) = forced False (deref ` set ps)"
    unfolding sv by simp
  show "dynClass (solve deref ?s0) = LeastSoln" unfolding sv using l(3) by simp
qed

lemma solve_greatest_changed:
  assumes "rhs_plain deref ps"
  shows "changed (solve deref (LHConsGreatestSoln deref ps)) = forced True (deref ` set ps)"
    and "dynClass (solve deref (LHConsGreatestSoln deref ps)) = GreatestSoln"
proof -
  let ?s0 = "LHConsGreatestSoln deref ps"
  let ?s1 = "enqueueConstraints ps (?s0\<lparr>solved := True\<rparr>)"
  have c: "dynClass (?s0\<lparr>solved := True\<rparr>) = GreatestSoln" by (simp add: LHConsGreatestSoln_def)
  have im: "index_map (?s0\<lparr>solved := True\<rparr>) = index_map ?s0" by (simp add: index_map_def)
  have "solve_inv deref ps ?s1"
    by (rule enqueue_all_inv) (simp_all add: im c greatest_ctor_index From_side_def, simp_all add: LHConsGreatestSoln_def)
  from solve_loop_inv[OF this assms]
  have l: "solve_inv deref ps (solve_loop deref ?s1)" "queue (solve_loop deref ?s1) = []"
    "dynClass (solve_loop deref ?s1) = GreatestSoln" using c by simp_all
  have sv: "solve deref ?s0 = (solve_loop deref ?s1)\<lparr>soln_constraints := [], invalidIfIncreased := [], invalidIfDecreased := []\<rparr>"
    by (simp add: solve_def Let_def LHConsGreatestSoln_def)
  from inv_final[OF l(1) l(2)] l(3) show "changed (solve deref ?s0) = forced True (deref ` set ps)"
    unfolding sv by simp
  show "dynClass (solve deref ?s0) = GreatestSoln" unfolding sv using l(3) by simp
qed

subsection \<open>The propagation solver computes the forced set\<close>

lemma isChanged_in_changed: "isChanged_in others own V \<longleftrightarrow> V \<in> changed_in others own"
  by (simp add: isChanged_in_iff changed_in_def)

lemma propagate_updates_all:
  "set Updates \<subseteq> changed_in others (fst (propagate_updates others Updates st))"
proof (induction Updates arbitrary: st)
  case Nil show ?case by simp
next
  case (Cons I Us)
  obtain own wl where st: "st = (own, wl)" by (cases st)
  let ?st1 = "if \<not> isChanged_in others own I then (own @ [I], wl @ [I]) else (own, wl)"
  have e: "propagate_updates others (I # Us) st = propagate_updates others Us ?st1"
    by (simp add: propagate_updates_def st)
  have i1: "I \<in> changed_in others (fst ?st1)"
    by (auto simp: isChanged_in_changed changed_in_def)
  from propagate_updates_rel[of others Us ?st1]
  have "set (fst ?st1) \<subseteq> set (fst (propagate_updates others Us ?st1))"
    unfolding prop_rel_def by auto
  then have "changed_in others (fst ?st1) \<subseteq> changed_in others (fst (propagate_updates others Us ?st1))"
    unfolding changed_in_def by auto
  with i1 Cons[of ?st1] show ?case unfolding e by auto
qed

lemma prop_rel_mono: "prop_rel others U st st' \<Longrightarrow> changed_in others (fst st) \<subseteq> changed_in others (fst st')"
  unfolding prop_rel_def changed_in_def by auto

lemma propagate_var_all:
  assumes "prop_edge Ps V w"
  shows "w \<in> changed_in others (fst (propagate_var Ps others V st))"
  using assms
proof (induction Ps arbitrary: st)
  case Nil then show ?case by (simp add: prop_edge_def)
next
  case (Cons PM Ps)
  let ?st1 = "case map_of PM V of None \<Rightarrow> st | Some Updates \<Rightarrow> propagate_updates others Updates st"
  have e: "propagate_var (PM # Ps) others V st = propagate_var Ps others V ?st1"
    by (simp add: propagate_var_def)
  from Cons.prems have "w \<in> set (vm_get PM V) \<or> prop_edge Ps V w" by (auto simp: prop_edge_def)
  then show ?case
  proof
    assume w: "w \<in> set (vm_get PM V)"
    then obtain Us where u: "map_of PM V = Some Us" "w \<in> set Us"
      by (cases "map_of PM V") (auto simp: vm_get_def)
    then have "w \<in> changed_in others (fst ?st1)" using propagate_updates_all[of Us others st] by auto
    moreover have "changed_in others (fst ?st1) \<subseteq> changed_in others (fst (propagate_var Ps others V ?st1))"
      by (rule prop_rel_mono[OF propagate_var_rel])
    ultimately show ?thesis unfolding e by blast
  next
    assume "prop_edge Ps V w"
    from Cons.IH[OF this, of ?st1] show ?thesis unfolding e .
  qed
qed

lemma propagate_var_sound:
  assumes "propagate_var Ps others V (own, wl) = (own', wl')"
  shows "\<exists>new. own' = own @ new \<and> wl' = wl @ new \<and> (\<forall>x \<in> set new. prop_edge Ps V x)"
proof -
  have upd: "\<exists>new. fst (propagate_updates others Us st) = fst st @ new \<and>
                   snd (propagate_updates others Us st) = snd st @ new \<and> set new \<subseteq> set Us" for Us st
    using propagate_updates_rel[of others Us st] unfolding prop_rel_def by blast
  have "\<exists>new. fst (propagate_var Ps others V st) = fst st @ new \<and>
              snd (propagate_var Ps others V st) = snd st @ new \<and> (\<forall>x \<in> set new. prop_edge Ps V x)" for st
  proof (induction Ps arbitrary: st)
    case Nil show ?case by (simp add: propagate_var_def)
  next
    case (Cons PM Ps)
    let ?st1 = "case map_of PM V of None \<Rightarrow> st | Some Updates \<Rightarrow> propagate_updates others Updates st"
    have e: "propagate_var (PM # Ps) others V st = propagate_var Ps others V ?st1"
      by (simp add: propagate_var_def)
    have "\<exists>n1. fst ?st1 = fst st @ n1 \<and> snd ?st1 = snd st @ n1 \<and> set n1 \<subseteq> set (vm_get PM V)"
    proof (cases "map_of PM V")
      case None then show ?thesis by simp
    next
      case (Some Us) with upd[of Us st] show ?thesis by (simp add: vm_get_def)
    qed
    then obtain n1 where n1: "fst ?st1 = fst st @ n1" "snd ?st1 = snd st @ n1" "set n1 \<subseteq> set (vm_get PM V)" by blast
    from Cons[of ?st1] obtain n2 where n2: "fst (propagate_var Ps others V ?st1) = fst ?st1 @ n2"
      "snd (propagate_var Ps others V ?st1) = snd ?st1 @ n2" "\<forall>x \<in> set n2. prop_edge Ps V x" by blast
    have "\<forall>x \<in> set (n1 @ n2). prop_edge (PM # Ps) V x" using n1(3) n2(3) by (auto simp: prop_edge_def)
    then show ?case unfolding e using n1 n2 by (intro exI[of _ "n1 @ n2"]) simp
  qed
  from this[of "(own, wl)"] assms show ?thesis by simp
qed

text \<open>the loop: grows, stays inside every closed superset, ends closed\<close>

lemma propagate_loop_grows: "set own \<subseteq> set (propagate_loop Ps others own wl)"
proof (induction Ps others own wl rule: propagate_loop.induct)
  case (1 Ps others own) show ?case by simp
next
  case (2 Ps others own V wl)
  obtain own' wl' where r: "propagate_var Ps others V (own, wl) = (own', wl')"
    by (cases "propagate_var Ps others V (own, wl)")
  from propagate_var_sound[OF r] have "set own \<subseteq> set own'" by auto
  with 2[of "(own', wl')"] r show ?case by (auto simp: Let_def)
qed

lemma propagate_loop_sound:
  assumes "set own \<subseteq> F" "set wl \<subseteq> F" "\<And>u w. u \<in> F \<Longrightarrow> prop_edge Ps u w \<Longrightarrow> w \<in> F"
  shows "set (propagate_loop Ps others own wl) \<subseteq> F"
  using assms
proof (induction Ps others own wl rule: propagate_loop.induct)
  case (1 Ps others own) then show ?case by simp
next
  case (2 Ps others own V wl)
  obtain own' wl' where r: "propagate_var Ps others V (own, wl) = (own', wl')"
    by (cases "propagate_var Ps others V (own, wl)")
  from propagate_var_sound[OF r] obtain new where n: "own' = own @ new" "wl' = wl @ new"
    "\<forall>x \<in> set new. prop_edge Ps V x" by blast
  have VF: "V \<in> F" using "2.prems"(2) by simp
  have "set new \<subseteq> F" using n(3) "2.prems"(3)[OF VF] by blast
  then have "set own' \<subseteq> F" "set wl' \<subseteq> F" using n "2.prems" by auto
  from "2.IH"[of "(own', wl')", simplified r, simplified, OF this "2.prems"(3)] r
  show ?case by (simp add: Let_def)
qed

lemma propagate_loop_closed:
  assumes "\<forall>u w. u \<in> changed_in others own \<and> u \<notin> set wl \<and> prop_edge Ps u w \<longrightarrow> w \<in> changed_in others own"
  shows "\<forall>u w. u \<in> changed_in others (propagate_loop Ps others own wl) \<and> prop_edge Ps u w
            \<longrightarrow> w \<in> changed_in others (propagate_loop Ps others own wl)"
  using assms
proof (induction Ps others own wl rule: propagate_loop.induct)
  case (1 Ps others own) then show ?case by simp
next
  case (2 Ps others own V wl)
  obtain own' wl' where r: "propagate_var Ps others V (own, wl) = (own', wl')"
    by (cases "propagate_var Ps others V (own, wl)")
  from propagate_var_sound[OF r] obtain new where n: "own' = own @ new" "wl' = wl @ new" by blast
  have mono: "changed_in others own \<subseteq> changed_in others own'" using n by (auto simp: changed_in_def)
  have Vdone: "\<And>w. prop_edge Ps V w \<Longrightarrow> w \<in> changed_in others own'"
    using propagate_var_all[of Ps V _ others "(own, wl)"] r by simp
  have inv': "\<forall>u w. u \<in> changed_in others own' \<and> u \<notin> set wl' \<and> prop_edge Ps u w \<longrightarrow> w \<in> changed_in others own'"
  proof (intro allI impI)
    fix u w assume a: "u \<in> changed_in others own' \<and> u \<notin> set wl' \<and> prop_edge Ps u w"
    show "w \<in> changed_in others own'"
    proof (cases "u = V")
      case True with a Vdone show ?thesis by simp
    next
      case False
      have "u \<notin> set new" "u \<notin> set wl" using a n by auto
      then have "u \<in> changed_in others own \<and> u \<notin> set (V # wl) \<and> prop_edge Ps u w"
        using a n False by (auto simp: changed_in_def)
      with "2.prems" have "w \<in> changed_in others own" by blast
      with mono show ?thesis by blast
    qed
  qed
  have e: "propagate_loop Ps others own (V # wl) = propagate_loop Ps others own' wl'"
    using r by (simp add: Let_def)
  have "\<forall>u w. u \<in> changed_in others (propagate_loop Ps others own' wl') \<and> prop_edge Ps u w
            \<longrightarrow> w \<in> changed_in others (propagate_loop Ps others own' wl')"
    using "2.IH"[of "(own', wl')"] r inv' by simp
  then show ?case unfolding e .
qed

lemma isChanged_chain: "isChanged h this V \<longleftrightarrow> V \<in> chain_changed h this"
  by (auto simp: isChanged_def chain_changed_def list_ex_iff)

lemma fold_cong_set: "(\<And>x. x \<in> set xs \<Longrightarrow> f x = g x) \<Longrightarrow> fold f xs a = fold g xs a"
  by (induction xs arbitrary: a) auto

lemma PartialSolution_subst_eq:
  "PartialSolution_subst h this e = psubst (initial (h ! this)) (chain_changed h this) e"
proof (induction e)
  case (LHJoin es)
  show ?case unfolding PartialSolution_subst.simps psubst.simps
    by (rule fold_cong_set) (simp add: LHJoin)
qed (simp_all add: isChanged_chain)

lemma psubst_least: "psubst False S e = LHConsSoln_subst_in LOW S e"
proof (induction e)
  case (LHJoin es)
  show ?case unfolding LHConsSoln_subst_in.simps psubst.simps
    by (rule fold_cong_set) (simp add: LHJoin)
qed (simp_all add: boolToLHC_def)

lemma psubst_greatest_nonjoin: "\<not> isa_LHJoin e \<Longrightarrow> psubst True S e = LHConsSoln_subst_in HIGH S e"
  by (cases e) (simp_all add: boolToLHC_def)

lemma fire_least: "(\<not> LHConstant_leq (psubst False S e) (LHConstant LOW)) \<longleftrightarrow> premise False S e"
  by (simp add: psubst_least least_subst_high_iff premise_def seeded_def)

lemma fire_greatest:
  "\<not> isa_LHJoin e \<Longrightarrow> LHConstant_leq (psubst True S e) (LHConstant LOW) \<longleftrightarrow> premise True S e"
  by (simp add: psubst_greatest_nonjoin greatest_subst_nonjoin premise_def seeded_def)

lemma fire_iff:
  assumes "init \<longrightarrow> \<not> isa_LHJoin e"
  shows "(if init then LHConstant_leq (psubst init S e) (LHConstant LOW)
          else \<not> LHConstant_leq (psubst init S e) (LHConstant LOW)) \<longleftrightarrow> premise init S e"
  using assms fire_least[of S e] fire_greatest[of e S] by (cases init) auto

lemma vm_get_fold_append:
  "distinct xs \<Longrightarrow> vm_get (fold (\<lambda>var m. vm_append var ys m) xs m) u =
     (if u \<in> set xs then vm_get m u @ ys else vm_get m u)"
  by (induction xs arbitrary: m) (auto simp: vm_get_vm_append)

lemma set_fold_ptrset_insert: "set (fold ptrset_insert xs ys) = set ys \<union> set xs"
  by (induction xs arbitrary: ys) (auto simp: ptrset_insert_def)

lemma initialize_constraint_frame:
  "length (initialize_constraint this c h) = length h \<and>
   (\<forall>a. a \<noteq> this \<longrightarrow> initialize_constraint this c h ! a = h ! a)"
  by (simp add: initialize_constraint_def Let_def)

lemma initialize_constraint_inv:
  assumes inv: "init_inv init C done this h" and c: "c \<in> C" and wf: "init \<longrightarrow> \<not> isa_LHJoin (rhs c)"
  shows "init_inv init C (insert c done) this (initialize_constraint this c h)"
proof -
  let ?obj = "h ! this"
  let ?F = "From_side init c" and ?T = "To_side init c"
  let ?vars = "sorted_list_of_set (variables ?F)" and ?targets = "sorted_list_of_set (variables ?T)"
  have b: "this < length h" "Chained ?obj = [this]" "initial ?obj = init"
    and snd: "set (VSet ?obj) \<subseteq> forced init C"
    and seeds: "\<forall>c \<in> done. seeded init (From_side init c) \<longrightarrow> variables (To_side init c) \<subseteq> set (VSet ?obj)"
    and edges: "\<forall>u w. w \<in> set (vm_get (P ?obj) u) \<longleftrightarrow>
            (\<exists>c \<in> done. u \<in> variables (From_side init c) \<and> w \<in> variables (To_side init c))"
    using inv unfolding init_inv_def by blast+
  have sides: "(if initial ?obj then rhs c else lhs c) = ?F" "(if initial ?obj then lhs c else rhs c) = ?T"
    using b(3) by (auto simp: From_side_def To_side_def)
  have sv: "set ?vars = variables ?F" "set ?targets = variables ?T" "distinct ?vars"
    by (simp_all add: finite_variables)
  have wfF: "init \<longrightarrow> \<not> isa_LHJoin ?F" using wf by (simp add: From_side_def)
  show ?thesis
  proof (cases "?targets = []")
    case True
    then have e: "variables ?T = {}" using sv(2) by (metis empty_set)
    have "initialize_constraint this c h = h" using True by (simp add: initialize_constraint_def Let_def sides)
    then show ?thesis using inv e unfolding init_inv_def by auto
  next
    case False
    let ?P' = "fold (\<lambda>var m. vm_append var ?targets m) ?vars (P ?obj)"
    let ?h1 = "h[this := ?obj\<lparr>P := ?P'\<rparr>]"
    have h1: "?h1 ! this = ?obj\<lparr>P := ?P'\<rparr>" using b(1) by simp
    have cc: "chain_changed ?h1 this = set (VSet ?obj)" using b by (simp add: chain_changed_def)
    let ?fire = "premise init (set (VSet ?obj)) ?F"
    have fire: "(if initial ?obj then LHConstant_leq (PartialSolution_subst ?h1 this ?F) (LHConstant LOW)
          else \<not> LHConstant_leq (PartialSolution_subst ?h1 this ?F) (LHConstant LOW)) \<longleftrightarrow> ?fire"
      unfolding PartialSolution_subst_eq h1 cc using fire_iff[OF wfF, of "set (VSet ?obj)"] b(3)
      by (cases init) simp_all
    let ?V' = "if ?fire then fold ptrset_insert ?targets (VSet ?obj) else VSet ?obj"
    have res: "initialize_constraint this c h = h[this := ?obj\<lparr>P := ?P', VSet := ?V'\<rparr>]"
      using False fire b(1) unfolding initialize_constraint_def Let_def sides by auto
    have r: "initialize_constraint this c h ! this = ?obj\<lparr>P := ?P', VSet := ?V'\<rparr>"
      unfolding res using b(1) by simp
    have P': "\<And>u. vm_get ?P' u = (if u \<in> variables ?F then vm_get (P ?obj) u @ ?targets else vm_get (P ?obj) u)"
      using vm_get_fold_append[OF sv(3), of ?targets "P ?obj"] sv(1) by simp
    have V': "set ?V' = (if ?fire then set (VSet ?obj) \<union> variables ?T else set (VSet ?obj))"
      using sv(2) by (simp add: set_fold_ptrset_insert)
    have s1: "set ?V' \<subseteq> forced init C"
      using snd premise_forced[OF snd c] V' by (auto split: if_splits)
    have s2: "\<forall>c' \<in> insert c done. seeded init (From_side init c') \<longrightarrow> variables (To_side init c') \<subseteq> set ?V'"
      using seeds V' unfolding premise_def by (auto split: if_splits)
    have s3: "\<forall>u w. w \<in> set (vm_get ?P' u) \<longleftrightarrow>
            (\<exists>c' \<in> insert c done. u \<in> variables (From_side init c') \<and> w \<in> variables (To_side init c'))"
      using edges sv(2) unfolding P' by auto
    show ?thesis unfolding init_inv_def r using b s1 s2 s3 by (simp add: res)
  qed
qed

lemma initialize_fold_inv:
  assumes "init_inv init C done this h" "set cs \<subseteq> C" "init \<longrightarrow> stored_form cs"
  shows "init_inv init C (done \<union> set cs) this (fold (initialize_constraint this) cs h)"
  using assms
proof (induction cs arbitrary: h "done")
  case Nil then show ?case by simp
next
  case (Cons c cs)
  have 1: "init_inv init C (insert c done) this (initialize_constraint this c h)"
    using Cons.prems by (intro initialize_constraint_inv) (auto simp: stored_form_def)
  have "init_inv init C (insert c done \<union> set cs) this (fold (initialize_constraint this) cs (initialize_constraint this c h))"
    using Cons.prems by (intro Cons.IH[OF 1]) (auto simp: stored_form_def)
  then show ?case by simp
qed

lemma initialize_fold_frame:
  "length (fold (initialize_constraint this) cs h) = length h \<and>
   (\<forall>a. a \<noteq> this \<longrightarrow> fold (initialize_constraint this) cs h ! a = h ! a)"
proof (induction cs arbitrary: h)
  case Nil show ?case by simp
next
  case (Cons c cs)
  from Cons[of "initialize_constraint this c h"] initialize_constraint_frame[of this c h]
  show ?case by simp
qed

lemma initialize_result:
  assumes wf: "init \<longrightarrow> stored_form C"
  shows "\<exists>obj. initialize C (length h) (h @ [empty_solution init]) = h @ [obj] \<and>
           init_inv init (set C) (set C) (length h) (h @ [obj])"
proof -
  define h0 where "h0 = h @ [(empty_solution init)\<lparr>Chained := [length h]\<rparr>]"
  define h1 where "h1 = fold (initialize_constraint (length h)) C h0"
  have i: "initialize C (length h) (h @ [empty_solution init]) = h1"
    by (simp add: initialize_def h1_def h0_def empty_solution_def)
  have "init_inv init (set C) {} (length h) h0"
    unfolding h0_def by (simp add: init_inv_def empty_solution_def)
  from initialize_fold_inv[OF this _ wf] have inv: "init_inv init (set C) (set C) (length h) h1"
    by (simp add: h1_def)
  have fr: "length h1 = Suc (length h)" "\<And>a. a < length h \<Longrightarrow> h1 ! a = h ! a"
    using initialize_fold_frame[of "length h" C h0] by (auto simp: nth_append h1_def h0_def)
  have "h1 = h @ [h1 ! length h]"
    by (rule nth_equalityI) (auto simp: fr nth_append less_Suc_eq)
  with inv i show ?thesis by metis
qed

lemma propagate_self:
  assumes "this < length h" "Chained (h ! this) = [this]"
  shows "propagate h this =
           Inr (h[this := (h ! this)\<lparr>VSet := propagate_loop [P (h ! this)] [] (VSet (h ! this)) (VSet (h ! this))\<rparr>])"
  using assms by (simp add: propagate_def Let_def)

lemma prop_edge_single: "prop_edge [PM] u w \<longleftrightarrow> w \<in> set (vm_get PM u)"
  by (simp add: prop_edge_def)

lemma PartialSolution_new_correct:
  assumes wf: "init \<longrightarrow> stored_form C"
  shows "\<exists>obj. PartialSolution_new C init h = Inr (length h, h @ [obj]) \<and>
           Chained obj = [length h] \<and> initial obj = init \<and>
           set (VSet obj) = forced init (set C) \<and>
           (\<forall>u w. w \<in> set (vm_get (P obj) u) \<longleftrightarrow>
              (\<exists>c \<in> set C. u \<in> variables (From_side init c) \<and> w \<in> variables (To_side init c)))"
proof -
  let ?a = "length h"
  from initialize_result[OF wf, of h] obtain o1 where
    i: "initialize C ?a (h @ [empty_solution init]) = h @ [o1]"
    and inv: "init_inv init (set C) (set C) ?a (h @ [o1])" by blast
  have o1: "Chained o1 = [?a]" "initial o1 = init" "set (VSet o1) \<subseteq> forced init (set C)"
    and seeds: "\<forall>c \<in> set C. seeded init (From_side init c) \<longrightarrow> variables (To_side init c) \<subseteq> set (VSet o1)"
    and edges: "\<forall>u w. w \<in> set (vm_get (P o1) u) \<longleftrightarrow>
            (\<exists>c \<in> set C. u \<in> variables (From_side init c) \<and> w \<in> variables (To_side init c))"
    using inv unfolding init_inv_def by simp_all
  let ?r = "propagate_loop [P o1] [] (VSet o1) (VSet o1)"
  let ?obj = "o1\<lparr>VSet := ?r\<rparr>"
  have pr: "propagate (h @ [o1]) ?a = Inr (h @ [?obj])"
    using propagate_self[of ?a "h @ [o1]"] o1(1) by simp
  have new: "PartialSolution_new C init h = Inr (?a, h @ [?obj])"
    unfolding PartialSolution_new_def Let_def i[unfolded empty_solution_def] pr by simp
  have grows: "set (VSet o1) \<subseteq> set ?r" by (rule propagate_loop_grows)
  have sound: "set ?r \<subseteq> forced init (set C)"
  proof (rule propagate_loop_sound[OF o1(3) o1(3)])
    fix u w assume "u \<in> forced init (set C)" "prop_edge [P o1] u w"
    then show "w \<in> forced init (set C)"
      using edges unfolding prop_edge_single by (meson forced.forced_step)
  qed
  have closed: "\<forall>u w. u \<in> set ?r \<and> prop_edge [P o1] u w \<longrightarrow> w \<in> set ?r"
  proof -
    have "\<forall>u w. u \<in> changed_in [] (VSet o1) \<and> u \<notin> set (VSet o1) \<and> prop_edge [P o1] u w
             \<longrightarrow> w \<in> changed_in [] (VSet o1)" by (auto simp: changed_in_def)
    from propagate_loop_closed[OF this] show ?thesis by (simp add: changed_in_def)
  qed
  have complete: "forced init (set C) \<subseteq> set ?r"
  proof
    fix v assume "v \<in> forced init (set C)"
    then show "v \<in> set ?r"
    proof (induction rule: forced.induct)
      case (forced_seed c v)
      then show ?case using seeds grows by blast
    next
      case (forced_step c u v)
      then have "prop_edge [P o1] u v" unfolding prop_edge_single using edges by blast
      with forced_step closed show ?case by blast
    qed
  qed
  show ?thesis
    by (rule exI[of _ ?obj]) (use new o1 edges sound complete in auto)
qed

subsection \<open>Termination and uniqueness of the worklist solver\<close>

lemma funpow_Suc_right': "(f ^^ Suc n) x = (f ^^ n) (f x)"
  by (simp only: funpow_Suc_right o_apply)

lemma solve_loop_funpow:
  "\<exists>n. queue ((solve_step deref ^^ n) s) = [] \<and> solve_loop deref s = (solve_step deref ^^ n) s \<and>
       (\<forall>m < n. queue ((solve_step deref ^^ m) s) \<noteq> [])"
proof (induction deref s rule: solve_loop.induct)
  case (1 deref s)
  show ?case
  proof (cases "queue s = []")
    case True
    then have "solve_loop deref s = s" by (subst solve_loop.simps) simp
    with True show ?thesis by (intro exI[of _ 0]) simp
  next
    case False
    from "1.IH"[OF False] obtain n where n: "queue ((solve_step deref ^^ n) (solve_step deref s)) = []"
      "solve_loop deref (solve_step deref s) = (solve_step deref ^^ n) (solve_step deref s)"
      "\<forall>m < n. queue ((solve_step deref ^^ m) (solve_step deref s)) \<noteq> []" by blast
    have a: "queue ((solve_step deref ^^ Suc n) s) = []" unfolding funpow_Suc_right' by (rule n(1))
    have b: "solve_loop deref s = (solve_step deref ^^ Suc n) s"
      unfolding funpow_Suc_right' n(2)[symmetric] using False by (subst solve_loop.simps) (simp only: if_False)
    have c: "\<forall>m < Suc n. queue ((solve_step deref ^^ m) s) \<noteq> []"
    proof (intro allI impI)
      fix m assume m: "m < Suc n"
      show "queue ((solve_step deref ^^ m) s) \<noteq> []"
      proof (cases m)
        case 0 then show ?thesis using False by simp
      next
        case (Suc k)
        then have "k < n" using m by simp
        with n(3) show ?thesis unfolding Suc funpow_Suc_right' by blast
      qed
    qed
    show ?thesis by (rule exI[of _ "Suc n"]) (use a b c in blast)
  qed
qed

lemma raise_all_changed: "changed (raise_all m vs s) = changed s \<union> set vs"
  by (induction vs arbitrary: s) (auto simp: raise_all_def)

lemma raise_all_queue_sub:
  "set (queue (raise_all m vs s)) \<subseteq> set (queue s) \<union> (\<Union>v \<in> set vs - changed s. set (vm_get m v))"
proof (induction vs arbitrary: s)
  case Nil show ?case by (simp add: raise_all_def)
next
  case (Cons v vs)
  let ?s1 = "if v \<in> changed s then s
             else enqueueConstraints (vm_get m v) (s\<lparr>changed := insert v (changed s)\<rparr>)"
  have r: "raise_all m (v # vs) s = raise_all m vs ?s1" by (simp add: raise_all_def)
  have q1: "set (queue ?s1) \<subseteq> set (queue s) \<union> (if v \<in> changed s then {} else set (vm_get m v))"
    using enqueue_queue[of "vm_get m v" "s\<lparr>changed := insert v (changed s)\<rparr>"] by auto
  have c1: "changed ?s1 = insert v (changed s)" by auto
  from Cons[of ?s1] q1 show ?case unfolding r c1 by (auto split: if_splits)
qed

lemma solve_step_requeue:
  assumes ne: "queue s \<noteq> []"
  shows "set (queue (solve_step deref s)) \<subseteq>
           set (tl (queue s)) \<union> (\<Union>v \<in> changed (solve_step deref s) - changed s. set (vm_get (index_map s) v))"
proof -
  let ?d = "dequeueConstraint s"
  let ?l = "lhs (deref (hd (queue s)))" and ?r = "rhs (deref (hd (queue s)))"
  show ?thesis
  proof (cases "LHConstant_leq (subst_now ?d ?l) (LHConstant (subst_now ?d ?r))")
    case True
    then show ?thesis by (simp add: solve_step_def Let_def dequeue_fields)
  next
    case False
    then have lr: "subst_now ?d ?l = HIGH" "subst_now ?d ?r = LOW" by auto
    have st: "solve_step deref s = satisfyConstraint ?d ?l ?r" using False by (simp add: solve_step_def Let_def)
    show ?thesis
    proof (cases "dynClass s")
      case LeastSoln
      then have "solve_step deref s = raise_all (index_map s) (sorted_list_of_set (variables ?r)) ?d"
        unfolding st using satisfyLeast_raise[of ?d ?l ?r] lr
        by (simp add: satisfyConstraint_def dequeue_fields index_map_def)
      then show ?thesis
        using raise_all_queue_sub[of "index_map s" "sorted_list_of_set (variables ?r)" ?d]
        by (auto simp: raise_all_changed dequeue_fields)
    next
      case GreatestSoln
      then have "solve_step deref s = raise_all (index_map s) (sorted_list_of_set (variables ?l)) ?d"
        unfolding st using satisfyGreatest_raise[of ?d ?r ?l] lr
        by (simp add: satisfyConstraint_def dequeue_fields index_map_def)
      then show ?thesis
        using raise_all_queue_sub[of "index_map s" "sorted_list_of_set (variables ?l)" ?d]
        by (auto simp: raise_all_changed dequeue_fields)
    qed
  qed
qed

lemma solve_step_grows:
  assumes ne: "queue s \<noteq> []"
  shows "changed s \<subseteq> changed (solve_step deref s)"
  using solve_step_rel[OF ne, of deref] by (simp add: step_rel_def dequeue_fields)

lemma finite_all_vars: "finite (all_vars deref ps)"
  by (simp add: all_vars_def cons_vars_def finite_variables)

lemma solve_step_bound:
  assumes "bound_inv deref ps s" "queue s \<noteq> []"
  shows "bound_inv deref ps (solve_step deref s)"
proof -
  have hd: "hd (queue s) \<in> set ps" using assms by (cases "queue s") (auto simp: bound_inv_def)
  then have cv: "cons_vars deref (hd (queue s)) \<subseteq> all_vars deref ps" by (auto simp: all_vars_def)
  have tl: "set (tl (queue s)) \<subseteq> set ps" using assms by (cases "queue s") (auto simp: bound_inv_def)
  let ?s' = "solve_step deref s"
  from solve_step_rel[OF assms(2), of deref]
  have a: "invalidIfIncreased ?s' = invalidIfIncreased s" "invalidIfDecreased ?s' = invalidIfDecreased s"
    "changed ?s' \<subseteq> changed s \<union> cons_vars deref (hd (queue s))"
    "set (queue ?s') \<subseteq> set (tl (queue s)) \<union> vm_range (invalidIfIncreased s) \<union> vm_range (invalidIfDecreased s)"
    unfolding step_rel_def by (simp_all add: dequeue_fields)
  have "changed ?s' \<subseteq> all_vars deref ps" using a(3) cv assms(1) unfolding bound_inv_def by blast
  moreover have "set (queue ?s') \<subseteq> set ps" using a(4) tl assms(1) unfolding bound_inv_def by blast
  ultimately show ?thesis using assms(1) a(1,2) unfolding bound_inv_def by simp
qed

lemma solve_loop_bound: "bound_inv deref ps s \<Longrightarrow> bound_inv deref ps (solve_loop deref s)"
proof (induction deref s rule: solve_loop.induct)
  case (1 deref s)
  show ?case
  proof (cases "queue s = []")
    case True
    then have "solve_loop deref s = s" by (subst solve_loop.simps) simp
    with 1 show ?thesis by simp
  next
    case False
    then have e: "solve_loop deref s = solve_loop deref (solve_step deref s)"
      by (subst solve_loop.simps) simp
    from "1.IH"[OF False solve_step_bound[OF "1.prems" False]] show ?thesis unfolding e .
  qed
qed

lemma vm_range_vm_append: "vm_range (vm_append k ys m) \<subseteq> vm_range m \<union> set ys"
  by (auto simp: vm_range_def vm_append_def split: if_splits)

lemma vm_range_addInvalid: "vm_range (addInvalid c vs m) \<subseteq> insert c (vm_range m)"
proof -
  have "vm_range (fold (\<lambda>var m. vm_append var [c] m) xs m) \<subseteq> insert c (vm_range m)" for xs
  proof (induction xs arbitrary: m)
    case Nil show ?case by auto
  next
    case (Cons x xs)
    from Cons[of "vm_append x [c] m"] vm_range_vm_append[of x "[c]" m] show ?case by auto
  qed
  then show ?thesis by (simp add: addInvalid_def)
qed

lemma vm_range_index: "vm_range (fold (\<lambda>cons m. addInvalid cons (f cons) m) cs m) \<subseteq> vm_range m \<union> set cs"
proof (induction cs arbitrary: m)
  case Nil show ?case by simp
next
  case (Cons c cs)
  from Cons[of "addInvalid c (f c) m"] vm_range_addInvalid[of c "f c" m] show ?case by auto
qed

lemma solve_bounded:
  assumes "s0 = LHConsLeastSoln deref ps \<or> s0 = LHConsGreatestSoln deref ps"
  shows "changed (solve deref s0) \<subseteq> all_vars deref ps"
proof -
  let ?s1 = "enqueueConstraints ps (s0\<lparr>solved := True\<rparr>)"
  have e: "vm_range [] = {}" by (simp add: vm_range_def)
  have r1: "vm_range (invalidIfIncreased s0) \<subseteq> set ps"
    using assms vm_range_index[of "\<lambda>c. variables (lhs (deref c))" ps "[]"] e
    by (auto simp: LHConsLeastSoln_def LHConsGreatestSoln_def)
  have r2: "vm_range (invalidIfDecreased s0) \<subseteq> set ps"
    using assms vm_range_index[of "\<lambda>c. variables (rhs (deref c))" ps "[]"] e
    by (auto simp: LHConsLeastSoln_def LHConsGreatestSoln_def)
  have r3: "changed s0 = {}" "queue s0 = []" "\<not> solved s0" "soln_constraints s0 = ps"
    using assms by (auto simp: LHConsLeastSoln_def LHConsGreatestSoln_def)
  note r = r1 r2 r3
  have "bound_inv deref ps ?s1"
    using r1 r2 r3 enqueue_queue[of ps "s0\<lparr>solved := True\<rparr>"] by (simp add: bound_inv_def)
  from solve_loop_bound[OF this] have "changed (solve_loop deref ?s1) \<subseteq> all_vars deref ps"
    by (simp add: bound_inv_def)
  then show ?thesis using r3(3,4) by (simp add: solve_def Let_def)
qed

text \<open>
  C7 (as amended).  From every state the loop of the worklist solver reaches an empty
  queue after finitely many iterations.  An iteration never shrinks \<^verbatim>\<open>changed\<close>, and the
  constraints it adds to the queue are indexed under a variable that has just entered
  \<^verbatim>\<open>changed\<close>.  The final \<^verbatim>\<open>changed\<close> set lies within the finitely many variables of the
  constraints.  For a constraint vector without a join on a right-hand side the final
  \<^verbatim>\<open>changed\<close> set depends on the set of constraints only: any other vector with the same
  constraints, in any order, gives the same set, for the least and for the greatest
  solver.
\<close>

theorem worklist_terminates_unique:
  "(\<exists>n. queue ((solve_step deref ^^ n) s) = [] \<and> solve_loop deref s = (solve_step deref ^^ n) s) \<and>
   (queue s \<noteq> [] \<longrightarrow>
      changed s \<subseteq> changed (solve_step deref s) \<and>
      set (queue (solve_step deref s)) \<subseteq>
        set (tl (queue s)) \<union>
        (\<Union>v \<in> changed (solve_step deref s) - changed s. set (vm_get (index_map s) v))) \<and>
   finite (all_vars deref ps) \<and>
   changed (solve deref (LHConsLeastSoln deref ps)) \<subseteq> all_vars deref ps \<and>
   card (changed (solve deref (LHConsLeastSoln deref ps))) \<le> card (all_vars deref ps) \<and>
   changed (solve deref (LHConsGreatestSoln deref ps)) \<subseteq> all_vars deref ps \<and>
   card (changed (solve deref (LHConsGreatestSoln deref ps))) \<le> card (all_vars deref ps) \<and>
   (stored_form (map deref ps) \<and> deref' ` set ps' = deref ` set ps \<longrightarrow>
      changed (solve deref' (LHConsLeastSoln deref' ps')) =
        changed (solve deref (LHConsLeastSoln deref ps)) \<and>
      changed (solve deref' (LHConsGreatestSoln deref' ps')) =
        changed (solve deref (LHConsGreatestSoln deref ps)))"
proof -
  have t: "\<exists>n. queue ((solve_step deref ^^ n) s) = [] \<and> solve_loop deref s = (solve_step deref ^^ n) s"
    using solve_loop_funpow[of deref s] by blast
  have st: "queue s \<noteq> [] \<longrightarrow>
      changed s \<subseteq> changed (solve_step deref s) \<and>
      set (queue (solve_step deref s)) \<subseteq>
        set (tl (queue s)) \<union>
        (\<Union>v \<in> changed (solve_step deref s) - changed s. set (vm_get (index_map s) v))"
    using solve_step_grows[of s deref] solve_step_requeue[of s deref] by blast
  have bl: "changed (solve deref (LHConsLeastSoln deref ps)) \<subseteq> all_vars deref ps"
    by (rule solve_bounded) simp
  have bg: "changed (solve deref (LHConsGreatestSoln deref ps)) \<subseteq> all_vars deref ps"
    by (rule solve_bounded) simp
  have cl: "card (changed (solve deref (LHConsLeastSoln deref ps))) \<le> card (all_vars deref ps)"
    by (rule card_mono[OF finite_all_vars bl])
  have cg: "card (changed (solve deref (LHConsGreatestSoln deref ps))) \<le> card (all_vars deref ps)"
    by (rule card_mono[OF finite_all_vars bg])
  have u: "stored_form (map deref ps) \<and> deref' ` set ps' = deref ` set ps \<longrightarrow>
      changed (solve deref' (LHConsLeastSoln deref' ps')) =
        changed (solve deref (LHConsLeastSoln deref ps)) \<and>
      changed (solve deref' (LHConsGreatestSoln deref' ps')) =
        changed (solve deref (LHConsGreatestSoln deref ps))"
  proof
    assume a: "stored_form (map deref ps) \<and> deref' ` set ps' = deref ` set ps"
    then have w: "rhs_plain deref ps" by (simp add: rhs_plain_def)
    have "\<forall>c \<in> deref ` set ps. \<not> isa_LHJoin (rhs c)"
      using a by (auto simp: stored_form_def list_all_iff)
    then have "\<forall>c \<in> deref' ` set ps'. \<not> isa_LHJoin (rhs c)" using a by simp
    then have w': "rhs_plain deref' ps'" by (auto simp: rhs_plain_def stored_form_def list_all_iff)
    show "changed (solve deref' (LHConsLeastSoln deref' ps')) =
        changed (solve deref (LHConsLeastSoln deref ps)) \<and>
      changed (solve deref' (LHConsGreatestSoln deref' ps')) =
        changed (solve deref (LHConsGreatestSoln deref ps))"
      using solve_least_changed(1)[OF w] solve_least_changed(1)[OF w']
        solve_greatest_changed(1)[OF w] solve_greatest_changed(1)[OF w'] a by simp
  qed
  from t st finite_all_vars[of deref ps] bl cl bg cg u show ?thesis by blast
qed

text \<open>
  With a join on a right-hand side the order matters: \<open>order_cheap\<close> taken in its two
  orders gives two different results.
\<close>

theorem worklist_order_dependence:
  "changed (solve order_cheap (LHConsLeastSoln order_cheap [0, 1])) \<noteq>
   changed (solve order_cheap (LHConsLeastSoln order_cheap [1, 0]))"
  by code_simp

theorem worklist_terminates_unique_witness:
  "queue ((LHConsLeastSoln chain_cheap [0])\<lparr>queue := [0], queueSet := {0}\<rparr>) \<noteq> [] \<and>
   stored_form (map chain_cheap [0, 1, 2]) \<and>
   chain_cheap ` set [2, 1, 0] = chain_cheap ` set [0, 1, 2] \<and>
   changed (solve chain_cheap (LHConsLeastSoln chain_cheap [2, 1, 0])) =
     changed (solve chain_cheap (LHConsLeastSoln chain_cheap [0, 1, 2])) \<and>
   changed ((LHConsLeastSoln chain_cheap [0])\<lparr>queue := [0], queueSet := {0}\<rparr>) \<subseteq>
     changed (solve_step chain_cheap ((LHConsLeastSoln chain_cheap [0])\<lparr>queue := [0], queueSet := {0}\<rparr>))"
proof -
  have h1: "queue ((LHConsLeastSoln chain_cheap [0])\<lparr>queue := [0], queueSet := {0}\<rparr>) \<noteq> []" by simp
  have h2: "stored_form (map chain_cheap [0, 1, 2])" by (simp add: stored_form_def chain_cheap_def)
  have h3: "chain_cheap ` set [2, 1, 0] = chain_cheap ` set [0, 1, 2]" by auto
  from worklist_terminates_unique[of chain_cheap "(LHConsLeastSoln chain_cheap [0])\<lparr>queue := [0], queueSet := {0}\<rparr>"
      "[0, 1, 2]" chain_cheap "[2, 1, 0]"] h1 h2 h3
  show ?thesis by blast
qed

subsection \<open>Agreement of the two solvers\<close>

lemma psubst_solution:
  assumes "Chained obj = [length h]"
  shows "PartialSolution_subst (h @ [obj]) (length h) e = psubst (initial obj) (set (VSet obj)) e"
  unfolding PartialSolution_subst_eq using assms by (simp add: chain_changed_def)

text \<open>
  C3 (as amended).  For a constraint vector without a join on a right-hand side, the
  worklist solver and the propagation solver built from the same constraints give the
  same constant to every element under the least solution, and to every element that is
  not a join (every variable and every constant) under the greatest solution.
\<close>

theorem solvers_agree_on_stored_form:
  assumes "stored_form (map deref ps)"
  shows "(\<exists>obj. PartialSolution_new (map deref ps) False h = Inr (length h, h @ [obj]) \<and>
            (\<forall>e. fst (LHConsSoln_subst deref (LHConsLeastSoln deref ps) e) =
                   PartialSolution_subst (h @ [obj]) (length h) e)) \<and>
         (\<exists>obj. PartialSolution_new (map deref ps) True h = Inr (length h, h @ [obj]) \<and>
            (\<forall>e. \<not> isa_LHJoin e \<longrightarrow>
                   fst (LHConsSoln_subst deref (LHConsGreatestSoln deref ps) e) =
                   PartialSolution_subst (h @ [obj]) (length h) e))"
proof
  have w: "rhs_plain deref ps" using assms by (simp add: rhs_plain_def)
  from PartialSolution_new_correct[of False "map deref ps" h]
  obtain obj where o: "PartialSolution_new (map deref ps) False h = Inr (length h, h @ [obj])"
    "Chained obj = [length h]" "initial obj = False" "set (VSet obj) = forced False (deref ` set ps)"
    by auto
  have "fst (LHConsSoln_subst deref (LHConsLeastSoln deref ps) e) =
        PartialSolution_subst (h @ [obj]) (length h) e" for e
    unfolding psubst_solution[OF o(2)] o(3) o(4) psubst_least
    using solve_least_changed[OF w]
    by (simp add: LHConsSoln_subst_def Let_def subst_now_def defaultValue_def)
  with o(1) show "\<exists>obj. PartialSolution_new (map deref ps) False h = Inr (length h, h @ [obj]) \<and>
            (\<forall>e. fst (LHConsSoln_subst deref (LHConsLeastSoln deref ps) e) =
                   PartialSolution_subst (h @ [obj]) (length h) e)" by blast
next
  have w: "rhs_plain deref ps" using assms by (simp add: rhs_plain_def)
  from PartialSolution_new_correct[of True "map deref ps" h] assms
  obtain obj where o: "PartialSolution_new (map deref ps) True h = Inr (length h, h @ [obj])"
    "Chained obj = [length h]" "initial obj = True" "set (VSet obj) = forced True (deref ` set ps)"
    by auto
  have "\<not> isa_LHJoin e \<longrightarrow> fst (LHConsSoln_subst deref (LHConsGreatestSoln deref ps) e) =
        PartialSolution_subst (h @ [obj]) (length h) e" for e
    unfolding psubst_solution[OF o(2)] o(3) o(4)
    using solve_greatest_changed[OF w] psubst_greatest_nonjoin[of e]
    by (simp add: LHConsSoln_subst_def Let_def subst_now_def defaultValue_def)
  with o(1) show "\<exists>obj. PartialSolution_new (map deref ps) True h = Inr (length h, h @ [obj]) \<and>
            (\<forall>e. \<not> isa_LHJoin e \<longrightarrow>
                   fst (LHConsSoln_subst deref (LHConsGreatestSoln deref ps) e) =
                   PartialSolution_subst (h @ [obj]) (length h) e)" by blast
qed

text \<open>
  The two solvers differ on the variable 2 for the least solution of \<open>order_cheap\<close>
  (a join on a right-hand side), and on the join of the low constant for the greatest
  solution of the empty constraint set.
\<close>

theorem solvers_disagree:
  "fst (LHConsSoln_subst order_cheap (LHConsLeastSoln order_cheap [0, 1]) (LHConsVar 2)) = LOW \<and>
   \<not> isl (PartialSolution_new (map order_cheap [0, 1]) False []) \<and>
   PartialSolution_subst (snd (projr (PartialSolution_new (map order_cheap [0, 1]) False [])))
     (fst (projr (PartialSolution_new (map order_cheap [0, 1]) False []))) (LHConsVar 2) = HIGH \<and>
   fst (LHConsSoln_subst chain_cheap (LHConsGreatestSoln chain_cheap []) (LHJoin [LHConstant LOW])) = HIGH \<and>
   \<not> isl (PartialSolution_new [] True []) \<and>
   PartialSolution_subst (snd (projr (PartialSolution_new [] True [])))
     (fst (projr (PartialSolution_new [] True []))) (LHJoin [LHConstant LOW]) = LOW"
  by code_simp

theorem solvers_agree_on_stored_form_witness:
  "stored_form (map chain_cheap [0, 1, 2]) \<and>
   fst (LHConsSoln_subst chain_cheap (LHConsLeastSoln chain_cheap [0, 1, 2]) (LHConsVar 2)) =
     PartialSolution_subst (snd (projr (PartialSolution_new (map chain_cheap [0, 1, 2]) False [])))
       (fst (projr (PartialSolution_new (map chain_cheap [0, 1, 2]) False []))) (LHConsVar 2) \<and>
   fst (LHConsSoln_subst chain_cheap (LHConsGreatestSoln chain_cheap [0, 1, 2]) (LHConsVar 3)) =
     PartialSolution_subst (snd (projr (PartialSolution_new (map chain_cheap [0, 1, 2]) True [])))
       (fst (projr (PartialSolution_new (map chain_cheap [0, 1, 2]) True []))) (LHConsVar 3)"
proof -
  have h: "stored_form (map chain_cheap [0, 1, 2])" by (simp add: stored_form_def chain_cheap_def)
  from solvers_agree_on_stored_form[OF h, of "[]"]
  obtain o1 o2 where
    1: "PartialSolution_new (map chain_cheap [0, 1, 2]) False [] = Inr (0, [o1])"
       "\<forall>e. fst (LHConsSoln_subst chain_cheap (LHConsLeastSoln chain_cheap [0, 1, 2]) e) =
            PartialSolution_subst [o1] 0 e"
    and 2: "PartialSolution_new (map chain_cheap [0, 1, 2]) True [] = Inr (0, [o2])"
       "\<forall>e. \<not> isa_LHJoin e \<longrightarrow> fst (LHConsSoln_subst chain_cheap (LHConsGreatestSoln chain_cheap [0, 1, 2]) e) =
            PartialSolution_subst [o2] 0 e"
    by auto
  have "\<not> isa_LHJoin (LHConsVar 3)" by simp
  with h 1 2 show ?thesis by simp
qed

subsection \<open>Solutions merged in the kit\<close>


















subsection \<open>Comparisons are made on the substituted constants\<close>

lemma least_satisfied:
  assumes "c \<in> C" "rhs c = LHConsVar w"
  shows "LHConstant_leq (LHConsSoln_subst_in LOW (forced False C) (lhs c))
           (LHConstant (LHConsSoln_subst_in LOW (forced False C) (rhs c)))"
proof (cases "LHConsSoln_subst_in LOW (forced False C) (lhs c)")
  case LOW then show ?thesis by simp
next
  case HIGH
  then have "high_in (lhs c) \<or> variables (lhs c) \<inter> forced False C \<noteq> {}"
    by (simp add: least_subst_high_iff)
  then have "w \<in> forced False C"
  proof
    assume "high_in (lhs c)"
    then show ?thesis
      using assms by (intro forced.forced_seed[OF assms(1)]) (simp_all add: seeded_def From_side_def To_side_def)
  next
    assume "variables (lhs c) \<inter> forced False C \<noteq> {}"
    then obtain u where u: "u \<in> variables (lhs c)" "u \<in> forced False C" by auto
    show ?thesis
      by (rule forced.forced_step[OF assms(1) _ u(2)]) (use u(1) assms in \<open>simp_all add: From_side_def To_side_def\<close>)
  qed
  then show ?thesis using assms(2) by simp
qed

lemma greatest_satisfied:
  assumes "c \<in> C" "lhs c = LHConsVar u" "\<not> isa_LHJoin (rhs c)"
  shows "LHConstant_leq (LHConsSoln_subst_in HIGH (forced True C) (lhs c))
           (LHConstant (LHConsSoln_subst_in HIGH (forced True C) (rhs c)))"
proof (cases "LHConsSoln_subst_in HIGH (forced True C) (rhs c)")
  case HIGH then show ?thesis by simp
next
  case LOW
  then have "rhs c = LHConstant LOW \<or> variables (rhs c) \<inter> forced True C \<noteq> {}"
    using assms(3) by (simp add: greatest_subst_nonjoin)
  then have "u \<in> forced True C"
  proof
    assume "rhs c = LHConstant LOW"
    then show ?thesis
      using assms by (intro forced.forced_seed[OF assms(1)]) (simp_all add: seeded_def From_side_def To_side_def)
  next
    assume "variables (rhs c) \<inter> forced True C \<noteq> {}"
    then obtain w where w: "w \<in> variables (rhs c)" "w \<in> forced True C" by auto
    show ?thesis
      by (rule forced.forced_step[OF assms(1) _ w(2)]) (use w(1) assms in \<open>simp_all add: From_side_def To_side_def\<close>)
  qed
  then show ?thesis using assms(2) by simp
qed

lemma leq_constants: "leq (LHConstant a) (LHConstant b) \<longleftrightarrow> LHConstant_leq a (LHConstant b)"
  by simp

lemma fold_keep: "fold (\<lambda>x s. s) xs s = s"
  by (induction xs) auto

lemma satisfyLeast_changed:
  assumes "dynClass s = LeastSoln"
  shows "changed (satisfyLeast s left right) =
           (if subst_now s left = HIGH then changed s \<union> variables right else changed s)"
proof (cases "subst_now s left")
  case LOW
  then show ?thesis by (simp add: satisfyLeast_def Let_def fold_keep)
next
  case HIGH
  then show ?thesis
    by (simp add: satisfyLeast_raise[OF assms HIGH] raise_all_changed finite_variables)
qed

lemma satisfyGreatest_changed:
  assumes "dynClass s = GreatestSoln"
  shows "changed (satisfyGreatest s left right) =
           (if subst_now s right = LOW then changed s \<union> variables left else changed s)"
proof (cases "subst_now s right")
  case HIGH
  then show ?thesis by (simp add: satisfyGreatest_def Let_def fold_keep)
next
  case LOW
  then show ?thesis
    by (simp add: satisfyGreatest_raise[OF assms LOW] raise_all_changed finite_variables)
qed

lemma PartialSolution_subst_P:
  "PartialSolution_subst (h[this := (h ! this)\<lparr>P := m\<rparr>]) this e = PartialSolution_subst h this e"
proof (cases "this < length h")
  case True
  have v: "\<And>b. VSet (h[this := (h ! this)\<lparr>P := m\<rparr>] ! b) = VSet (h ! b)"
    using True by (case_tac "b = this") simp_all
  have "chain_changed (h[this := (h ! this)\<lparr>P := m\<rparr>]) this = chain_changed h this"
    using True by (simp add: chain_changed_def v)
  then show ?thesis using True by (simp add: PartialSolution_subst_eq)
next
  case False
  then have "h[this := (h ! this)\<lparr>P := m\<rparr>] = h" by (simp add: list_update_beyond)
  then show ?thesis by simp
qed

lemma initialize_constraint_VSet:
  assumes "this < length h"
  shows "set (VSet (initialize_constraint this c h ! this)) =
           set (VSet (h ! this)) \<union>
           (if PartialSolution_subst h this (From_side (initial (h ! this)) c)
                 = (if initial (h ! this) then LOW else HIGH)
            then variables (To_side (initial (h ! this)) c) else {})"
proof -
  have l: "\<And>x. LHConstant_leq x (LHConstant LOW) \<longleftrightarrow> x = LOW" by simp
  have ne: "\<And>x. x \<noteq> LOW \<longleftrightarrow> x = HIGH" by (metis LHLevel.exhaust LHLevel.distinct(1))
  have e: "sorted_list_of_set (variables (To_side (initial (h ! this)) c)) = [] \<longleftrightarrow>
           variables (To_side (initial (h ! this)) c) = {}"
    by (simp add: finite_variables sorted_list_of_set_eq_Nil_iff)
  show ?thesis
    using assms e
    by (auto simp: initialize_constraint_def Let_def PartialSolution_subst_P l ne From_side_def To_side_def
        set_fold_ptrset_insert finite_variables simp del: level_leq_simps)
qed

text \<open>
  C10.  The comparison of a variable with any element, itself included, is false.  The
  solvers decide from the constants that \<^verbatim>\<open>subst\<close> yields.  The loop of the worklist
  solver leaves a constraint between a variable and itself alone in every state.
  \<^verbatim>\<open>satisfyConstraint\<close> of the least solver raises the variables of the right side
  exactly when the constant substituted for the left side is high, the one of the
  greatest solver lowers the variables of the left side exactly when the constant
  substituted for the right side is low, and \<^verbatim>\<open>initialize\<close> of the propagation solver
  seeds the target variables of a constraint exactly when the constant substituted for
  its source side is not the default.  For a constraint vector in stored form each of
  the four solutions (worklist and propagation solver, least and greatest) satisfies
  every constraint that has a variable on the side that the solution may change: the
  constants substituted for the two sides are in order.
\<close>

theorem variables_compared_by_substitution:
  "(\<forall>e. \<not> leq (LHConsVar v) e) \<and>
   (deref' (hd (queue s)) = LHConstraint (LHConsVar v) (LHConsVar v) \<longrightarrow>
      solve_step deref' s = dequeueConstraint s) \<and>
   (dynClass sl = LeastSoln \<longrightarrow>
      changed (satisfyConstraint sl left right) =
        (if subst_now sl left = HIGH then changed sl \<union> variables right else changed sl)) \<and>
   (dynClass sg = GreatestSoln \<longrightarrow>
      changed (satisfyConstraint sg left' right') =
        (if subst_now sg right' = LOW then changed sg \<union> variables left' else changed sg)) \<and>
   (this < length hp \<longrightarrow>
      set (VSet (initialize_constraint this c hp ! this)) =
        set (VSet (hp ! this)) \<union>
        (if PartialSolution_subst hp this (From_side (initial (hp ! this)) c)
              = (if initial (hp ! this) then LOW else HIGH)
         then variables (To_side (initial (hp ! this)) c) else {})) \<and>
   (stored_form (map deref ps) \<longrightarrow>
      (\<forall>p \<in> set ps. \<forall>w. rhs (deref p) = LHConsVar w \<longrightarrow>
         leq (LHConstant (fst (LHConsSoln_subst deref (LHConsLeastSoln deref ps) (lhs (deref p)))))
             (LHConstant (fst (LHConsSoln_subst deref (LHConsLeastSoln deref ps) (rhs (deref p)))))) \<and>
      (\<forall>p \<in> set ps. \<forall>u. lhs (deref p) = LHConsVar u \<longrightarrow>
         leq (LHConstant (fst (LHConsSoln_subst deref (LHConsGreatestSoln deref ps) (lhs (deref p)))))
             (LHConstant (fst (LHConsSoln_subst deref (LHConsGreatestSoln deref ps) (rhs (deref p)))))) \<and>
      (\<exists>obj. PartialSolution_new (map deref ps) False h = Inr (length h, h @ [obj]) \<and>
         (\<forall>p \<in> set ps. \<forall>w. rhs (deref p) = LHConsVar w \<longrightarrow>
            leq (LHConstant (PartialSolution_subst (h @ [obj]) (length h) (lhs (deref p))))
                (LHConstant (PartialSolution_subst (h @ [obj]) (length h) (rhs (deref p)))))) \<and>
      (\<exists>obj. PartialSolution_new (map deref ps) True h = Inr (length h, h @ [obj]) \<and>
         (\<forall>p \<in> set ps. \<forall>u. lhs (deref p) = LHConsVar u \<longrightarrow>
            leq (LHConstant (PartialSolution_subst (h @ [obj]) (length h) (lhs (deref p))))
                (LHConstant (PartialSolution_subst (h @ [obj]) (length h) (rhs (deref p)))))))"
proof (intro conjI impI)
  show "\<forall>e. \<not> leq (LHConsVar v) e" by simp
next
  assume "deref' (hd (queue s)) = LHConstraint (LHConsVar v) (LHConsVar v)"
  then show "solve_step deref' s = dequeueConstraint s"
    by (cases "subst_now (dequeueConstraint s) (LHConsVar v)") (simp_all add: solve_step_def Let_def)
next
  assume "dynClass sl = LeastSoln"
  then show "changed (satisfyConstraint sl left right) =
        (if subst_now sl left = HIGH then changed sl \<union> variables right else changed sl)"
    by (simp add: satisfyConstraint_def satisfyLeast_changed)
next
  assume "dynClass sg = GreatestSoln"
  then show "changed (satisfyConstraint sg left' right') =
        (if subst_now sg right' = LOW then changed sg \<union> variables left' else changed sg)"
    by (simp add: satisfyConstraint_def satisfyGreatest_changed)
next
  assume "this < length hp"
  then show "set (VSet (initialize_constraint this c hp ! this)) =
        set (VSet (hp ! this)) \<union>
        (if PartialSolution_subst hp this (From_side (initial (hp ! this)) c)
              = (if initial (hp ! this) then LOW else HIGH)
         then variables (To_side (initial (hp ! this)) c) else {})"
    by (rule initialize_constraint_VSet)
next
  assume sf: "stored_form (map deref ps)"
  then have w: "rhs_plain deref ps" by (simp add: rhs_plain_def)
  let ?C = "deref ` set ps"
  have nj: "\<And>p. p \<in> set ps \<Longrightarrow> \<not> isa_LHJoin (rhs (deref p))" using w by (rule rhs_plainD)
  have least: "\<And>e. fst (LHConsSoln_subst deref (LHConsLeastSoln deref ps) e) = LHConsSoln_subst_in LOW (forced False ?C) e"
    by (simp add: LHConsSoln_subst_def Let_def subst_now_def defaultValue_def solve_least_changed[OF w])
  have greatest: "\<And>e. fst (LHConsSoln_subst deref (LHConsGreatestSoln deref ps) e) = LHConsSoln_subst_in HIGH (forced True ?C) e"
    by (simp add: LHConsSoln_subst_def Let_def subst_now_def defaultValue_def solve_greatest_changed[OF w])
  show "\<forall>p \<in> set ps. \<forall>w. rhs (deref p) = LHConsVar w \<longrightarrow>
         leq (LHConstant (fst (LHConsSoln_subst deref (LHConsLeastSoln deref ps) (lhs (deref p)))))
             (LHConstant (fst (LHConsSoln_subst deref (LHConsLeastSoln deref ps) (rhs (deref p)))))"
    unfolding least leq_constants by (blast intro: least_satisfied)
  show "\<forall>p \<in> set ps. \<forall>u. lhs (deref p) = LHConsVar u \<longrightarrow>
         leq (LHConstant (fst (LHConsSoln_subst deref (LHConsGreatestSoln deref ps) (lhs (deref p)))))
             (LHConstant (fst (LHConsSoln_subst deref (LHConsGreatestSoln deref ps) (rhs (deref p)))))"
    unfolding greatest leq_constants using nj by (blast intro: greatest_satisfied)
  from PartialSolution_new_correct[of False "map deref ps" h]
  obtain o1 where o1: "PartialSolution_new (map deref ps) False h = Inr (length h, h @ [o1])"
    "Chained o1 = [length h]" "initial o1 = False" "set (VSet o1) = forced False ?C" by auto
  have s1: "\<And>e. PartialSolution_subst (h @ [o1]) (length h) e = LHConsSoln_subst_in LOW (forced False ?C) e"
    using o1 by (simp add: psubst_solution psubst_least)
  have "\<forall>p \<in> set ps. \<forall>w. rhs (deref p) = LHConsVar w \<longrightarrow>
            leq (LHConstant (PartialSolution_subst (h @ [o1]) (length h) (lhs (deref p))))
                (LHConstant (PartialSolution_subst (h @ [o1]) (length h) (rhs (deref p))))"
    unfolding s1 leq_constants by (blast intro: least_satisfied)
  with o1(1) show "\<exists>obj. PartialSolution_new (map deref ps) False h = Inr (length h, h @ [obj]) \<and>
         (\<forall>p \<in> set ps. \<forall>w. rhs (deref p) = LHConsVar w \<longrightarrow>
            leq (LHConstant (PartialSolution_subst (h @ [obj]) (length h) (lhs (deref p))))
                (LHConstant (PartialSolution_subst (h @ [obj]) (length h) (rhs (deref p)))))" by blast
  from PartialSolution_new_correct[of True "map deref ps" h] sf
  obtain o2 where o2: "PartialSolution_new (map deref ps) True h = Inr (length h, h @ [o2])"
    "Chained o2 = [length h]" "initial o2 = True" "set (VSet o2) = forced True ?C" by auto
  have s2: "\<And>e. \<not> isa_LHJoin e \<Longrightarrow> PartialSolution_subst (h @ [o2]) (length h) e = LHConsSoln_subst_in HIGH (forced True ?C) e"
    using o2 by (simp add: psubst_solution psubst_greatest_nonjoin)
  have "\<forall>p \<in> set ps. \<forall>u. lhs (deref p) = LHConsVar u \<longrightarrow>
            leq (LHConstant (PartialSolution_subst (h @ [o2]) (length h) (lhs (deref p))))
                (LHConstant (PartialSolution_subst (h @ [o2]) (length h) (rhs (deref p))))"
  proof (intro ballI allI impI)
    fix p u assume p: "p \<in> set ps" "lhs (deref p) = LHConsVar u"
    have "\<not> isa_LHJoin (lhs (deref p))" using p(2) by simp
    from s2[OF this] s2[OF nj[OF p(1)]] greatest_satisfied[of "deref p" ?C u, OF _ p(2) nj[OF p(1)]] p(1)
    show "leq (LHConstant (PartialSolution_subst (h @ [o2]) (length h) (lhs (deref p))))
                (LHConstant (PartialSolution_subst (h @ [o2]) (length h) (rhs (deref p))))"
      unfolding leq_constants by simp
  qed
  with o2(1) show "\<exists>obj. PartialSolution_new (map deref ps) True h = Inr (length h, h @ [obj]) \<and>
         (\<forall>p \<in> set ps. \<forall>u. lhs (deref p) = LHConsVar u \<longrightarrow>
            leq (LHConstant (PartialSolution_subst (h @ [obj]) (length h) (lhs (deref p))))
                (LHConstant (PartialSolution_subst (h @ [obj]) (length h) (rhs (deref p)))))" by blast
qed

theorem variables_compared_by_substitution_witness:
  "reflexive_cheap (hd (queue ((LHConsLeastSoln reflexive_cheap [0])\<lparr>queue := [0], queueSet := {0}\<rparr>)))
     = LHConstraint (LHConsVar 1) (LHConsVar 1) \<and>
   solve_step reflexive_cheap ((LHConsLeastSoln reflexive_cheap [0])\<lparr>queue := [0], queueSet := {0}\<rparr>)
     = dequeueConstraint ((LHConsLeastSoln reflexive_cheap [0])\<lparr>queue := [0], queueSet := {0}\<rparr>) \<and>
   dynClass ((LHConsLeastSoln chain_cheap [0, 1, 2])\<lparr>changed := {1}\<rparr>) = LeastSoln \<and>
   changed (satisfyConstraint ((LHConsLeastSoln chain_cheap [0, 1, 2])\<lparr>changed := {1}\<rparr>)
              (LHConsVar 1) (LHConsVar 2)) = {1, 2} \<and>
   dynClass (LHConsGreatestSoln chain_cheap [0, 1, 2]) = GreatestSoln \<and>
   changed (satisfyConstraint (LHConsGreatestSoln chain_cheap [0, 1, 2])
              (LHConsVar 3) (LHConstant LOW)) = {3} \<and>
   (0::nat) < length [(empty_solution False)\<lparr>Chained := [0]\<rparr>] \<and>
   set (VSet (initialize_constraint 0 (LHConstraint (LHConstant HIGH) (LHConsVar 1))
                [(empty_solution False)\<lparr>Chained := [0]\<rparr>] ! 0)) = {1} \<and>
   stored_form (map chain_cheap [0, 1, 2]) \<and> (1::nat) \<in> set [0, 1, 2] \<and>
   rhs (chain_cheap 1) = LHConsVar 2 \<and> lhs (chain_cheap 1) = LHConsVar 1 \<and>
   leq (LHConstant (fst (LHConsSoln_subst chain_cheap (LHConsLeastSoln chain_cheap [0, 1, 2]) (lhs (chain_cheap 1)))))
       (LHConstant (fst (LHConsSoln_subst chain_cheap (LHConsLeastSoln chain_cheap [0, 1, 2]) (rhs (chain_cheap 1))))) \<and>
   leq (LHConstant (fst (LHConsSoln_subst chain_cheap (LHConsGreatestSoln chain_cheap [0, 1, 2]) (lhs (chain_cheap 1)))))
       (LHConstant (fst (LHConsSoln_subst chain_cheap (LHConsGreatestSoln chain_cheap [0, 1, 2]) (rhs (chain_cheap 1))))) \<and>
   \<not> leq (lhs (chain_cheap 1)) (rhs (chain_cheap 1))"
proof -
  note T = variables_compared_by_substitution[where v = 1 and deref' = reflexive_cheap
      and s = "(LHConsLeastSoln reflexive_cheap [0])\<lparr>queue := [0], queueSet := {0}\<rparr>"
      and sl = "(LHConsLeastSoln chain_cheap [0, 1, 2])\<lparr>changed := {1}\<rparr>"
      and left = "LHConsVar 1" and right = "LHConsVar 2"
      and sg = "LHConsGreatestSoln chain_cheap [0, 1, 2]"
      and left' = "LHConsVar 3" and right' = "LHConstant LOW"
      and this = 0 and hp = "[(empty_solution False)\<lparr>Chained := [0]\<rparr>]"
      and c = "LHConstraint (LHConstant HIGH) (LHConsVar 1)"
      and deref = chain_cheap and ps = "[0, 1, 2]" and h = "[]"]
  have h1: "reflexive_cheap (hd (queue ((LHConsLeastSoln reflexive_cheap [0])\<lparr>queue := [0], queueSet := {0}\<rparr>)))
     = LHConstraint (LHConsVar 1) (LHConsVar 1)" by (simp add: reflexive_cheap_def)
  have h2: "dynClass ((LHConsLeastSoln chain_cheap [0, 1, 2])\<lparr>changed := {1}\<rparr>) = LeastSoln"
    by (simp add: LHConsLeastSoln_def)
  have h3: "dynClass (LHConsGreatestSoln chain_cheap [0, 1, 2]) = GreatestSoln"
    by (simp add: LHConsGreatestSoln_def)
  have h4: "(0::nat) < length [(empty_solution False)\<lparr>Chained := [0]\<rparr>]" by simp
  have h5: "stored_form (map chain_cheap [0, 1, 2])" by (simp add: stored_form_def chain_cheap_def)
  have h6: "(1::nat) \<in> set [0, 1, 2]" "rhs (chain_cheap 1) = LHConsVar 2" "lhs (chain_cheap 1) = LHConsVar 1"
    by (simp_all add: chain_cheap_def)
  have c0: "\<not> leq (lhs (chain_cheap 1)) (rhs (chain_cheap 1))"
    using T[THEN conjunct1] h6(3) by simp
  have c1: "solve_step reflexive_cheap ((LHConsLeastSoln reflexive_cheap [0])\<lparr>queue := [0], queueSet := {0}\<rparr>)
     = dequeueConstraint ((LHConsLeastSoln reflexive_cheap [0])\<lparr>queue := [0], queueSet := {0}\<rparr>)"
    using T[THEN conjunct2, THEN conjunct1] h1 by blast
  have c2: "changed (satisfyConstraint ((LHConsLeastSoln chain_cheap [0, 1, 2])\<lparr>changed := {1}\<rparr>)
              (LHConsVar 1) (LHConsVar 2)) = {1, 2}"
    using T[THEN conjunct2, THEN conjunct2, THEN conjunct1] h2
    by (auto simp: subst_now_def defaultValue_def LHConsLeastSoln_def)
  have c3: "changed (satisfyConstraint (LHConsGreatestSoln chain_cheap [0, 1, 2])
              (LHConsVar 3) (LHConstant LOW)) = {3}"
    using T[THEN conjunct2, THEN conjunct2, THEN conjunct2, THEN conjunct1] h3
    by (auto simp: subst_now_def defaultValue_def LHConsGreatestSoln_def)
  have c4: "set (VSet (initialize_constraint 0 (LHConstraint (LHConstant HIGH) (LHConsVar 1))
                [(empty_solution False)\<lparr>Chained := [0]\<rparr>] ! 0)) = {1}"
    using T[THEN conjunct2, THEN conjunct2, THEN conjunct2, THEN conjunct2, THEN conjunct1] h4
    by (simp add: empty_solution_def From_side_def To_side_def)
  note S = T[THEN conjunct2, THEN conjunct2, THEN conjunct2, THEN conjunct2, THEN conjunct2, rule_format, OF h5]
  have c5: "leq (LHConstant (fst (LHConsSoln_subst chain_cheap (LHConsLeastSoln chain_cheap [0, 1, 2]) (lhs (chain_cheap 1)))))
       (LHConstant (fst (LHConsSoln_subst chain_cheap (LHConsLeastSoln chain_cheap [0, 1, 2]) (rhs (chain_cheap 1)))))"
    using S[THEN conjunct1] h6 by blast
  have c6: "leq (LHConstant (fst (LHConsSoln_subst chain_cheap (LHConsGreatestSoln chain_cheap [0, 1, 2]) (lhs (chain_cheap 1)))))
       (LHConstant (fst (LHConsSoln_subst chain_cheap (LHConsGreatestSoln chain_cheap [0, 1, 2]) (rhs (chain_cheap 1)))))"
    using S[THEN conjunct2, THEN conjunct1] h6 by blast
  show ?thesis
    using h1 h2 h3 h4 h5 h6 c0 c1 c2 c3 c4 c5 c6 by blast
qed

subsection \<open>Taint declared for a value and the solution of the pass\<close>








lemma psubst_var_least: "psubst False F (LHConsVar x) = HIGH \<longleftrightarrow> x \<in> F"
  by (simp add: boolToLHC_def)

lemma psubst_var_greatest: "psubst True F (LHConsVar x) = LOW \<longleftrightarrow> x \<in> F"
  by (simp add: boolToLHC_def)







subsection \<open>Instances\<close>

theorem addConstraint_contract_witness:
  "''k'' \<notin> lockedConstraintKinds new_kit \<and> \<not> isa_LHJoin (LHConsVar 0) \<and> no_join_on_rhs new_kit \<and>
   (\<exists>k'. addConstraint ''k'' (LHJoin [LHConsVar 1, LHConsVar 2]) (LHConsVar 0) new_kit = Inr k' \<and>
         stored_constraints k' ''k'' =
           [LHConstraint (LHConsVar 1) (LHConsVar 0), LHConstraint (LHConsVar 2) (LHConsVar 0)] \<and>
         no_join_on_rhs k')"
proof -
  have h: "''k'' \<notin> lockedConstraintKinds new_kit" "\<not> isa_LHJoin (LHConsVar 0)" "no_join_on_rhs new_kit"
    by (simp_all add: new_kit_def no_join_on_rhs_def stored_constraints_def)
  have s: "stored_constraints new_kit ''k'' = []"
    by (simp add: new_kit_def stored_constraints_def)
  from addConstraint_contract[of "''k''" new_kit "LHJoin [LHConsVar 1, LHConsVar 2]" "LHConsVar 0"] h s
  show ?thesis by auto
qed

theorem lattice_laws_and_interning_witness:
  "set [LHConsVar 2, LHConsVar 1] = set [LHConsVar 1, LHConsVar 2] \<and>
   fst (upperBound_set [LHConsVar 2, LHConsVar 1] new_kit) = LHJoin [LHConsVar 1, LHConsVar 2] \<and>
   (let (e, k1) = upperBound_set [LHConsVar 1, LHConsVar 2] new_kit;
        k2 = fold (\<lambda>es k. snd (upperBound_set es k)) [[LHConstant HIGH]] k1;
        (e', k3) = upperBound_set [LHConsVar 2, LHConsVar 1] k2
    in (\<exists>j i. e = LHJoin j \<and> set j = set [LHConsVar 1, LHConsVar 2] \<and>
              join_address [LHConsVar 1, LHConsVar 2] k1 = Some i \<and> i < length (joins k1) \<and> joins k1 ! i = j \<and>
              join_address [LHConsVar 2, LHConsVar 1] k3 = Some i \<and> i < length (joins k3) \<and> joins k3 ! i = j) \<and>
       e' = e \<and> k3 = k2)"
proof -
  have h: "set [LHConsVar 2, LHConsVar 1] = set [LHConsVar 1, LHConsVar 2]" by auto
  have e: "fst (upperBound_set [LHConsVar 2, LHConsVar 1] new_kit) = LHJoin [LHConsVar 1, LHConsVar 2]"
    by code_simp
  have "set [LHConsVar 2, LHConsVar 1] = set [LHConsVar 1, LHConsVar 2] \<longrightarrow>
      (let (e, k1) = upperBound_set [LHConsVar 1, LHConsVar 2] new_kit;
           k2 = fold (\<lambda>es k. snd (upperBound_set es k)) [[LHConstant HIGH]] k1;
           (e', k3) = upperBound_set [LHConsVar 2, LHConsVar 1] k2
       in (\<exists>j i. e = LHJoin j \<and> set j = set [LHConsVar 1, LHConsVar 2] \<and>
                 join_address [LHConsVar 1, LHConsVar 2] k1 = Some i \<and> i < length (joins k1) \<and> joins k1 ! i = j \<and>
                 join_address [LHConsVar 2, LHConsVar 1] k3 = Some i \<and> i < length (joins k3) \<and> joins k3 ! i = j) \<and>
          e' = e \<and> k3 = k2)"
    using lattice_laws_and_interning[where elems' = "[LHConsVar 2, LHConsVar 1]"
      and elems = "[LHConsVar 1, LHConsVar 2]" and k = new_kit and others = "[[LHConstant HIGH]]"
      and a = LOW and b = LOW and c = LOW and ?e1.0 = "LHConstant LOW" and ?e2.0 = "LHConstant LOW"]
    by blast
  with h e show ?thesis by blast
qed

end
